theory Spec2Isabelle
  imports Complex_Main "HOL-Library.Log_Nat"
begin

section \<open>American roulette strategy simulator: data model\<close>

text \<open>
  The development embeds the simulation engine (\<^verbatim>\<open>services/simulationEngine\<close>, with
  \<^verbatim>\<open>types.ts\<close> and the colour table of \<^verbatim>\<open>constants\<close>) and the playback fold of
  \<^verbatim>\<open>App.tsx\<close>. Stakes, bankrolls, limits and multipliers are integral in every caller
  and are modelled as integers. JavaScript computes on them in IEEE 754 double precision:
  the payouts of the resolver, the table-max scale-down and the ROI are modelled with the
  rounding of that arithmetic (section \<open>JavaScript numbers\<close>); the sums and differences
  of the ledger (bet totals, nets, bankrolls) are taken as exact.
\<close>

datatype BetType =
  STRAIGHT | SPLIT | STREET | CORNER | BASKET | LINE | COLUMN | DOZEN
  | RED_BLACK | EVEN_ODD | HIGH_LOW | TRIO

record PlacedBet =
  bet_id :: string
  btype :: BetType
  numbers :: "int list"
  amount :: int
  label :: "string option"

text \<open>The outcome of a spin is \<^verbatim>\<open>number | '00'\<close>.\<close>

datatype pocket = Num nat | DoubleZero

record SpinResult =
  number :: pocket
  color :: string

record BetOutcome =
  bet :: PlacedBet
  bet_won :: bool
  bet_payout :: int
  bet_net :: int

datatype ProgressionType =
  start_immediately | wait_spins | wait_condition | reset | double | triple
  | add_unit | subtract_unit | same_bet | custom_bet | martingale | repeat_until

datatype MartingaleLimitType = M_profit_target | M_spin_count | M_until_bankrupt

datatype RepeatUntilType = R_spins | R_wins | R_profit_target | R_loss_limit

text \<open>
  The action tag of a ledger entry is a string built from a template. The model keeps the
  template and its argument apart: \<open>MARTINGALE_x m\<close> stands for \<^verbatim>\<open>`MARTINGALE_x${m}`\<close>,
  \<open>REPEAT t\<close> for \<^verbatim>\<open>`REPEAT_${t.toUpperCase()}`\<close> and \<open>WAITING_FOR c\<close> for
  \<^verbatim>\<open>`WAITING_FOR_${c}`\<close> with \<open>c\<close> the upper-cased condition.
\<close>

datatype action =
  START | BET | NO_BET | WAITING | WAITING_FOR string | MARTINGALE_x int
  | REPEAT RepeatUntilType

record SimulationStep =
  spinIndex :: nat
  result :: SpinResult
  step_bets :: "PlacedBet list"
  outcomes :: "BetOutcome list"
  betTotal :: int
  payout :: int
  net :: int
  bankroll :: int
  won :: bool
  actionType :: action

record SimConfig =
  maxSpins :: int
  tableMin :: int
  tableMax :: int

text \<open>
  Strategy nodes are JavaScript objects, and a child may be the root object itself. Nodes
  therefore live in a store indexed by references; a child is \<^verbatim>\<open>null\<close> (\<open>None\<close>) or a
  reference. The presentation fields of a node (id, label, title, x, y) are not read by
  the engine and are left out.
\<close>

type_synonym ref = nat

record StrategyNode =
  ntype :: ProgressionType
  bets :: "PlacedBet list option"
  nvalue :: "int option"
  condition :: "string option"
  postWaitAction :: "ProgressionType option"
  martingaleLimitType :: "MartingaleLimitType option"
  martingaleLimitValue :: "int option"
  repeatUntilType :: "RepeatUntilType option"
  repeatUntilValue :: "int option"
  win :: "ref option"
  loss :: "ref option"

type_synonym store = "ref \<Rightarrow> StrategyNode"

record StrategyConfig =
  rootNode :: ref
  stopLoss :: int
  takeProfit :: int

record SimulationStats =
  initialBankroll :: int
  finalBankroll :: int
  totalSpins :: nat
  wins :: nat
  losses :: nat
  maxDrawdown :: int
  maxUpside :: int
  longestWinStreak :: nat
  longestLossStreak :: nat
  roi :: rat
  config :: SimConfig

record SimulationResult =
  steps :: "SimulationStep list"
  stats :: SimulationStats

section \<open>JavaScript numbers\<close>

text \<open>
  A JavaScript number is an IEEE 754 double: a sign, a significand of 53 bits and a binary
  exponent. Every arithmetic operation returns the double nearest to the exact result,
  with ties going to the even significand. \<open>toDouble x\<close> is that double for an exact
  result \<open>x\<close>: with \<open>e\<close> the exponent of the last significand bit
  (\<open>2 ^ 52 \<le> \<bar>x\<bar> / 2 ^ e < 2 ^ 53\<close>), it is \<open>x / 2 ^ e\<close> rounded to an integer, times
  \<open>2 ^ e\<close>. The model is of the normal range of the doubles: it has no overflow to
  infinity (above about \<open>1.8 * 10 ^ 308\<close>) and no subnormal numbers.
\<close>

definition pow2 :: "int \<Rightarrow> rat" where
  "pow2 e = (if 0 \<le> e then 2 ^ nat e else 1 / 2 ^ nat (- e))"

text \<open>Rounding to the nearest integer, a tie to the even one.\<close>

definition roundEven :: "rat \<Rightarrow> int" where
  "roundEven x =
     (let f = \<lfloor>x\<rfloor>; d = x - of_int f
      in if d < 1 / 2 then f else if 1 / 2 < d then f + 1 else if even f then f else f + 1)"

text \<open>
  The binary exponent \<open>\<lfloor>log\<^sub>2 \<bar>x\<bar>\<rfloor>\<close> of a number other than 0, from the bit lengths of
  its numerator and denominator.
\<close>

definition exponent :: "rat \<Rightarrow> int" where
  "exponent x =
     (let d = bitlen (fst (quotient_of \<bar>x\<bar>)) - bitlen (snd (quotient_of \<bar>x\<bar>))
      in if pow2 d \<le> \<bar>x\<bar> then d else d - 1)"

definition toDouble :: "rat \<Rightarrow> rat" where
  "toDouble x =
     (if x = 0 then 0
      else let e = exponent x - 52 in of_int (roundEven (x / pow2 e)) * pow2 e)"

text \<open>
  The result of an operation whose exact result is the integer \<open>n\<close> (a sum, difference
  or product of integers): the nearest double is an integer again.
\<close>

definition doubleOfInt :: "int \<Rightarrow> int" where
  "doubleOfInt n = \<lfloor>toDouble (of_int n)\<rfloor>"

section \<open>The bet resolver\<close>

text \<open>
  \<^verbatim>\<open>toLowerCase\<close> and \<^verbatim>\<open>toUpperCase\<close> on ASCII strings, which the labels, colours and
  conditions of the program are.
\<close>

definition lowerChar :: "char \<Rightarrow> char" where
  "lowerChar c =
     (let n = (of_char c :: nat) in if 65 \<le> n \<and> n \<le> 90 then char_of (n + 32) else c)"

definition upperChar :: "char \<Rightarrow> char" where
  "upperChar c =
     (let n = (of_char c :: nat) in if 97 \<le> n \<and> n \<le> 122 then char_of (n - 32) else c)"

definition toLowerCase :: "string \<Rightarrow> string" where
  "toLowerCase s = map lowerChar s"

definition toUpperCase :: "string \<Rightarrow> string" where
  "toUpperCase s = map upperChar s"

text \<open>
  \<^verbatim>\<open>NUMBER_COLORS\<close> is keyed by the decimal string of the outcome; the model keys it by
  the outcome itself. A missing key reads as \<^verbatim>\<open>undefined\<close> (\<open>None\<close>).
\<close>

definition NUMBER_COLORS :: "pocket \<Rightarrow> string option" where
  "NUMBER_COLORS = map_of
     [(Num 0, ''green''), (DoubleZero, ''green''),
      (Num 1, ''red''), (Num 2, ''black''), (Num 3, ''red''),
      (Num 4, ''black''), (Num 5, ''red''), (Num 6, ''black''),
      (Num 7, ''red''), (Num 8, ''black''), (Num 9, ''red''),
      (Num 10, ''black''), (Num 11, ''black''), (Num 12, ''red''),
      (Num 13, ''black''), (Num 14, ''red''), (Num 15, ''black''),
      (Num 16, ''red''), (Num 17, ''black''), (Num 18, ''red''),
      (Num 19, ''red''), (Num 20, ''black''), (Num 21, ''red''),
      (Num 22, ''black''), (Num 23, ''red''), (Num 24, ''black''),
      (Num 25, ''red''), (Num 26, ''black''), (Num 27, ''red''),
      (Num 28, ''black''), (Num 29, ''black''), (Num 30, ''red''),
      (Num 31, ''black''), (Num 32, ''red''), (Num 33, ''black''),
      (Num 34, ''red''), (Num 35, ''black''), (Num 36, ''red'')]"

definition getResultValue :: "pocket \<Rightarrow> int" where
  "getResultValue resultNum = (case resultNum of DoubleZero \<Rightarrow> 37 | Num n \<Rightarrow> int n)"

definition isWin :: "pocket \<Rightarrow> PlacedBet \<Rightarrow> bool" where
  "isWin resultNum b =
     (let resultVal = getResultValue resultNum;
          isZeroOrDoubleZero = (resultVal = 0 \<or> resultVal = 37)
      in if btype b = BASKET then resultVal \<in> set [0, 37, 1, 2, 3]
         else if btype b = RED_BLACK then
           (if isZeroOrDoubleZero then False
            else NUMBER_COLORS resultNum = map_option toLowerCase (label b))
         else if btype b = EVEN_ODD then
           (if isZeroOrDoubleZero then False
            else let isEven = (resultVal mod 2 = 0)
                 in if label b = Some ''Even'' then isEven
                    else if label b = Some ''Odd'' then \<not> isEven
                    else False)
         else if btype b = HIGH_LOW then
           (if isZeroOrDoubleZero then False
            else if label b = Some ''1-18'' then resultVal \<ge> 1 \<and> resultVal \<le> 18
            else if label b = Some ''19-36'' then resultVal \<ge> 19 \<and> resultVal \<le> 36
            else False)
         else if btype b = DOZEN then
           (if isZeroOrDoubleZero then False
            else if label b = Some ''1st 12'' then resultVal \<ge> 1 \<and> resultVal \<le> 12
            else if label b = Some ''2nd 12'' then resultVal \<ge> 13 \<and> resultVal \<le> 24
            else if label b = Some ''3rd 12'' then resultVal \<ge> 25 \<and> resultVal \<le> 36
            else False)
         else if btype b = COLUMN then
           (if isZeroOrDoubleZero then False
            else if length (numbers b) > 0 then resultVal \<in> set (numbers b)
            else if label b = Some ''2 to 1 (Bot)'' then resultVal mod 3 = 1
            else if label b = Some ''2 to 1 (Mid)'' then resultVal mod 3 = 2
            else if label b = Some ''2 to 1 (Top)''
              then resultVal \<noteq> 0 \<and> resultVal \<noteq> 37 \<and> resultVal mod 3 = 0
            else False)
         else resultVal \<in> set (numbers b))"

text \<open>The \<^verbatim>\<open>switch\<close> on the bet type inside \<^verbatim>\<open>calculateDetailedOutcomes\<close>.\<close>

definition payoutMultiplier :: "BetType \<Rightarrow> int" where
  "payoutMultiplier t =
     (case t of
        STRAIGHT \<Rightarrow> 35 | SPLIT \<Rightarrow> 17 | STREET \<Rightarrow> 11 | CORNER \<Rightarrow> 8
      | BASKET \<Rightarrow> 6 | LINE \<Rightarrow> 5 | COLUMN \<Rightarrow> 2 | DOZEN \<Rightarrow> 2
      | RED_BLACK \<Rightarrow> 1 | EVEN_ODD \<Rightarrow> 1 | HIGH_LOW \<Rightarrow> 1
      | _ \<Rightarrow> 1)"

text \<open>
  The body of the \<^verbatim>\<open>forEach\<close>: the accumulator is the pair of \<^verbatim>\<open>totalPayout\<close> and
  \<^verbatim>\<open>outcomes\<close>. The product \<^verbatim>\<open>bet.amount * multiplier\<close>, the sum
  \<^verbatim>\<open>bet.amount + (...)\<close>, the sum \<^verbatim>\<open>totalPayout += payout\<close> and the difference
  \<^verbatim>\<open>payout - bet.amount\<close> are each rounded to a double.
\<close>

definition outcomeStep :: "SpinResult \<Rightarrow> PlacedBet \<Rightarrow> int \<times> BetOutcome list \<Rightarrow> int \<times> BetOutcome list" where
  "outcomeStep res b acc =
     (let w = isWin (number res) b;
          p = (if w
               then doubleOfInt (amount b + doubleOfInt (amount b * payoutMultiplier (btype b)))
               else 0)
      in (doubleOfInt (fst acc + p),
          snd acc @ [\<lparr>bet = b, bet_won = w, bet_payout = p,
                      bet_net = doubleOfInt (p - amount b)\<rparr>]))"

definition calculateDetailedOutcomes :: "PlacedBet list \<Rightarrow> SpinResult \<Rightarrow> int \<times> BetOutcome list" where
  "calculateDetailedOutcomes bs res = fold (outcomeStep res) bs (0, [])"

section \<open>The spin generator\<close>

text \<open>
  \<^verbatim>\<open>generateSpin\<close> reads \<^verbatim>\<open>Math.random()\<close>. The model takes the value of
  \<^verbatim>\<open>Math.floor(Math.random() * 38)\<close> as an argument; a run receives the sequence of these
  values as a function \<open>rnd\<close> of the number of the draw, counted from 0. Every call of
  \<^verbatim>\<open>generateSpin\<close> in the runner is followed at once by a call of \<^verbatim>\<open>recordStep\<close>, which
  increments \<^verbatim>\<open>spinsConsumed\<close>, so that the number of the next draw is \<^verbatim>\<open>spinsConsumed\<close>.
\<close>

definition generateSpin :: "nat \<Rightarrow> SpinResult" where
  "generateSpin rawSpin =
     (let spinNum = (if rawSpin = 37 then DoubleZero else Num rawSpin);
          c = (case NUMBER_COLORS spinNum of None \<Rightarrow> ''green'' | Some col \<Rightarrow> col)
      in \<lparr>number = spinNum, color = c\<rparr>)"

section \<open>The simulation runner\<close>

text \<open>
  The mutable local variables of \<^verbatim>\<open>runSimulation\<close>. The ledger \<^verbatim>\<open>steps\<close> and the counters
  that share a name with a field of the statistics carry the prefix \<open>v_\<close>.
\<close>

record run_state =
  v_bankroll :: int
  v_steps :: "SimulationStep list"
  currentNode :: ref
  currentBaseBets :: "PlacedBet list"
  currentMultiplier :: int
  spinsConsumed :: nat
  v_wins :: nat
  v_losses :: nat
  v_maxDrawdown :: int
  v_maxUpside :: int
  currentWinStreak :: nat
  currentLossStreak :: nat
  v_longestWinStreak :: nat
  v_longestLossStreak :: nat

datatype error = TypeError

datatype ('c, 'b) flow = Continue 'c | Break 'b | Raise error

text \<open>\<^verbatim>\<open>bets.reduce((sum, b) => sum + b.amount, 0)\<close>\<close>

definition totalAmount :: "PlacedBet list \<Rightarrow> int" where
  "totalAmount bs = foldl (\<lambda>sum b. sum + amount b) 0 bs"

text \<open>Step 4 of \<^verbatim>\<open>recordStep\<close>: the statistics of a betting spin.\<close>

definition updateStats :: "int \<Rightarrow> int \<Rightarrow> run_state \<Rightarrow> run_state" where
  "updateStats initial n s =
     (let s1 = (if n > 0 then
                  s\<lparr>v_wins := v_wins s + 1, currentWinStreak := currentWinStreak s + 1,
                    currentLossStreak := 0\<rparr>
                else if n < 0 then
                  s\<lparr>v_losses := v_losses s + 1, currentLossStreak := currentLossStreak s + 1,
                    currentWinStreak := 0\<rparr>
                else s\<lparr>currentLossStreak := 0, currentWinStreak := 0\<rparr>);
          s2 = (if currentWinStreak s1 > v_longestWinStreak s1
                then s1\<lparr>v_longestWinStreak := currentWinStreak s1\<rparr> else s1);
          s3 = (if currentLossStreak s2 > v_longestLossStreak s2
                then s2\<lparr>v_longestLossStreak := currentLossStreak s2\<rparr> else s2);
          totalNetChange = v_bankroll s3 - initial;
          s4 = (if totalNetChange < v_maxDrawdown s3
                then s3\<lparr>v_maxDrawdown := totalNetChange\<rparr> else s3)
      in if totalNetChange > v_maxUpside s4 then s4\<lparr>v_maxUpside := totalNetChange\<rparr> else s4)"

text \<open>
  \<^verbatim>\<open>recordStep\<close> returns \<^verbatim>\<open>false\<close> without a ledger entry when the bets cannot be
  afforded; the spin counter is incremented in either case.
\<close>

definition recordStep ::
  "int \<Rightarrow> SpinResult \<Rightarrow> PlacedBet list \<Rightarrow> action \<Rightarrow> bool \<Rightarrow> run_state \<Rightarrow> bool \<times> run_state" where
  "recordStep initial res activeBets tag isWaitStep s0 =
     (let s = s0\<lparr>spinsConsumed := spinsConsumed s0 + 1\<rparr>;
          betsSnapshot = activeBets;
          total = totalAmount betsSnapshot
      in if \<not> isWaitStep \<and> total > v_bankroll s then (False, s)
         else
           let po = (if isWaitStep then (0, []) else calculateDetailedOutcomes betsSnapshot res);
               totalPayout = fst po;
               n = totalPayout - total;
               s1 = s\<lparr>v_bankroll := v_bankroll s + n\<rparr>;
               s2 = (if \<not> isWaitStep then updateStats initial n s1 else s1)
           in (True,
               s2\<lparr>v_steps := v_steps s2 @
                  [\<lparr>spinIndex = spinsConsumed s2, result = res, step_bets = betsSnapshot,
                    outcomes = snd po, betTotal = total, payout = totalPayout, net = n,
                    bankroll = v_bankroll s2, won = (n > 0), actionType = tag\<rparr>]\<rparr>))"

text \<open>
  \<^verbatim>\<open>steps[steps.length - 1].won\<close>: on an empty ledger the read of \<^verbatim>\<open>.won\<close> on
  \<^verbatim>\<open>undefined\<close> throws.
\<close>

definition lastStepWon :: "run_state \<Rightarrow> error + bool" where
  "lastStepWon s = (case v_steps s of [] \<Rightarrow> Inl TypeError | _ \<Rightarrow> Inr (won (last (v_steps s))))"

text \<open>
  \<^verbatim>\<open>bets.map(b => ({...b, amount: Math.floor(b.amount * currentMultiplier)}))\<close>; the
  product of two integers is its own floor.
\<close>

definition scaleBets :: "int \<Rightarrow> PlacedBet list \<Rightarrow> PlacedBet list" where
  "scaleBets m bs = map (\<lambda>b. b\<lparr>amount := amount b * m\<rparr>) bs"

text \<open>
  The scale-down over the table maximum: \<^verbatim>\<open>scaleFactor = config.tableMax / totalWager\<close>
  and \<^verbatim>\<open>Math.max(1, Math.floor(b.amount * scaleFactor))\<close>. The quotient is rounded to a
  double and so is the product; the floor of a double is exact. The scale-down is reached
  with a total wager above the table maximum; the model is of tables with a maximum that
  is not negative, so that the divisor is positive.
\<close>

definition capBets :: "int \<Rightarrow> int \<Rightarrow> PlacedBet list \<Rightarrow> PlacedBet list" where
  "capBets tmax totalWager bs =
     (let scaleFactor = toDouble (of_int tmax / of_int totalWager)
      in map (\<lambda>b. b\<lparr>amount := max 1 \<lfloor>toDouble (of_int (amount b) * scaleFactor)\<rfloor>\<rparr>) bs)"

definition scaledBets :: "SimConfig \<Rightarrow> run_state \<Rightarrow> PlacedBet list" where
  "scaledBets cfg s =
     (let activeBets = scaleBets (currentMultiplier s) (currentBaseBets s);
          totalWager = totalAmount activeBets
      in if totalWager > tableMax cfg then capBets (tableMax cfg) totalWager activeBets
         else activeBets)"

subsection \<open>Wait phases\<close>

primrec waitSpins :: "(nat \<Rightarrow> nat) \<Rightarrow> int \<Rightarrow> nat \<Rightarrow> run_state \<Rightarrow> run_state" where
  "waitSpins rnd initial 0 s = s"
| "waitSpins rnd initial (Suc k) s =
     waitSpins rnd initial k
       (snd (recordStep initial (generateSpin (rnd (spinsConsumed s))) [] WAITING True s))"

lemma recordStep_spins [simp]:
  "spinsConsumed (snd (recordStep initial res bs tag w s)) = Suc (spinsConsumed s)"
  by (simp add: recordStep_def updateStats_def Let_def)

function waitConditionLoop ::
  "(nat \<Rightarrow> nat) \<Rightarrow> int \<Rightarrow> string \<Rightarrow> bool \<Rightarrow> nat \<Rightarrow> run_state \<Rightarrow> run_state" where
  "waitConditionLoop rnd initial cond conditionMet safety s =
     (if \<not> conditionMet \<and> safety < 200 then
        let res = generateSpin (rnd (spinsConsumed s));
            s1 = snd (recordStep initial res [] (WAITING_FOR (toUpperCase cond)) True s);
            met1 = (if cond = ''red'' \<and> color res = ''red'' then True else conditionMet);
            met2 = (if cond = ''black'' \<and> color res = ''black'' then True else met1)
        in waitConditionLoop rnd initial cond met2 (safety + 1) s1
      else s)"
  by pat_completeness auto
termination
  by (relation "measure (\<lambda>(rnd, initial, cond, conditionMet, safety, s). 200 - safety)") auto

declare waitConditionLoop.simps [simp del]

subsection \<open>Moving the cursor to the next node\<close>

text \<open>\<^verbatim>\<open>rootNode.bets || []\<close>\<close>

definition rootBets :: "store \<Rightarrow> ref \<Rightarrow> PlacedBet list" where
  "rootBets h rootRef = (case bets (h rootRef) of None \<Rightarrow> [] | Some bs \<Rightarrow> bs)"

text \<open>\<^verbatim>\<open>node.bets && node.bets.length > 0\<close>\<close>

definition hasBets :: "StrategyNode \<Rightarrow> bool" where
  "hasBets n = (case bets n of None \<Rightarrow> False | Some bs \<Rightarrow> length bs > 0)"

definition toRoot :: "store \<Rightarrow> ref \<Rightarrow> run_state \<Rightarrow> run_state" where
  "toRoot h rootRef s =
     s\<lparr>currentBaseBets := rootBets h rootRef, currentMultiplier := 1, currentNode := rootRef\<rparr>"

text \<open>
  The cursor moves to a child; explicit bets of the child replace the base bets and reset
  the multiplier.
\<close>

definition loadNode :: "store \<Rightarrow> ref \<Rightarrow> run_state \<Rightarrow> run_state" where
  "loadNode h n s =
     (let s1 = s\<lparr>currentNode := n\<rparr>
      in if hasBets (h n)
         then s1\<lparr>currentBaseBets := the (bets (h n)), currentMultiplier := 1\<rparr>
         else s1)"

text \<open>
  The \<^verbatim>\<open>switch (currentNode.type)\<close> that follows, in the form it has after the martingale
  and repeat-until loops: it has no case for the wait nodes.
\<close>

definition nodeModifier :: "store \<Rightarrow> ref \<Rightarrow> run_state \<Rightarrow> run_state" where
  "nodeModifier h rootRef s =
     (let n = h (currentNode s)
      in case ntype n of
           double \<Rightarrow>
             if bets n = None then s\<lparr>currentMultiplier := currentMultiplier s * 2\<rparr> else s
         | triple \<Rightarrow>
             if bets n = None then s\<lparr>currentMultiplier := currentMultiplier s * 3\<rparr> else s
         | add_unit \<Rightarrow>
             if bets n = None then s\<lparr>currentMultiplier := currentMultiplier s + 1\<rparr> else s
         | subtract_unit \<Rightarrow>
             if bets n = None then s\<lparr>currentMultiplier := max 1 (currentMultiplier s - 1)\<rparr>
             else s
         | reset \<Rightarrow>
             s\<lparr>currentMultiplier := 1, currentBaseBets := rootBets h rootRef, currentNode := rootRef\<rparr>
         | _ \<Rightarrow> s)"

definition enterNode :: "store \<Rightarrow> ref \<Rightarrow> ref option \<Rightarrow> run_state \<Rightarrow> run_state" where
  "enterNode h rootRef nextNode s =
     (case nextNode of
        None \<Rightarrow> toRoot h rootRef s
      | Some n \<Rightarrow> nodeModifier h rootRef (loadNode h n s))"

text \<open>
  The \<^verbatim>\<open>wait_spins\<close> case, which only the switch after a single spin has: the wait spins,
  then the post-wait action.
\<close>

definition waitNode :: "(nat \<Rightarrow> nat) \<Rightarrow> int \<Rightarrow> store \<Rightarrow> ref \<Rightarrow> run_state \<Rightarrow> run_state" where
  "waitNode rnd initial h rootRef s =
     (let n = h (currentNode s);
          s1 = (case nvalue n of
                  None \<Rightarrow> s
                | Some v \<Rightarrow> if v \<noteq> 0 then waitSpins rnd initial (nat v) s else s)
      in if postWaitAction n \<noteq> None \<and> \<not> hasBets n then
           (case the (postWaitAction n) of
              double \<Rightarrow> s1\<lparr>currentMultiplier := currentMultiplier s1 * 2\<rparr>
            | triple \<Rightarrow> s1\<lparr>currentMultiplier := currentMultiplier s1 * 3\<rparr>
            | add_unit \<Rightarrow> s1\<lparr>currentMultiplier := currentMultiplier s1 + 1\<rparr>
            | subtract_unit \<Rightarrow> s1\<lparr>currentMultiplier := max 1 (currentMultiplier s1 - 1)\<rparr>
            | reset \<Rightarrow> s1\<lparr>currentMultiplier := 1, currentBaseBets := rootBets h rootRef\<rparr>
            | _ \<Rightarrow> s1)
         else s1)"

definition enterNodeSingle ::
  "(nat \<Rightarrow> nat) \<Rightarrow> int \<Rightarrow> store \<Rightarrow> ref \<Rightarrow> ref option \<Rightarrow> run_state \<Rightarrow> run_state" where
  "enterNodeSingle rnd initial h rootRef nextNode s =
     (case nextNode of
        None \<Rightarrow> toRoot h rootRef s
      | Some n \<Rightarrow>
          let s1 = loadNode h n s
          in if ntype (h (currentNode s1)) = wait_spins then waitNode rnd initial h rootRef s1
             else nodeModifier h rootRef s1)"

subsection \<open>The martingale loop\<close>

definition martingaleProgress ::
  "MartingaleLimitType \<Rightarrow> int \<Rightarrow> bool \<Rightarrow> int \<Rightarrow> int \<Rightarrow> run_state \<Rightarrow> bool \<times> run_state" where
  "martingaleProgress limitType limitValue roundWin martingaleStepCount profit s =
     (case limitType of
        M_until_bankrupt \<Rightarrow>
          if roundWin then (False, s)
          else (True, s\<lparr>currentMultiplier := currentMultiplier s * 2\<rparr>)
      | M_profit_target \<Rightarrow>
          if profit \<ge> limitValue then (False, s)
          else if \<not> roundWin then (True, s\<lparr>currentMultiplier := currentMultiplier s * 2\<rparr>)
          else (True, s\<lparr>currentMultiplier := 1\<rparr>)
      | M_spin_count \<Rightarrow>
          if martingaleStepCount \<ge> limitValue then (False, s)
          else if \<not> roundWin then (True, s\<lparr>currentMultiplier := currentMultiplier s * 2\<rparr>)
          else (True, s))"

text \<open>
  One pass of the body of the inner \<^verbatim>\<open>while\<close>; \<open>Continue\<close> carries
  \<^verbatim>\<open>martingaleActive\<close>, \<^verbatim>\<open>martingaleStepCount\<close> and the variables of the run to the
  next test of the loop condition, \<open>Break\<close> leaves the loop.
\<close>

definition martingaleIter ::
  "(nat \<Rightarrow> nat) \<Rightarrow> int \<Rightarrow> SimConfig \<Rightarrow> MartingaleLimitType \<Rightarrow> int \<Rightarrow> int \<Rightarrow> int \<Rightarrow> run_state
     \<Rightarrow> (bool \<times> int \<times> run_state, run_state) flow" where
  "martingaleIter rnd initial cfg limitType limitValue sequenceStartBankroll martingaleStepCount s =
     (let activeBets = scaleBets (currentMultiplier s) (currentBaseBets s);
          totalWager = totalAmount activeBets
      in if totalWager > tableMax cfg \<or> totalWager > v_bankroll s then Break s
         else
           let res = generateSpin (rnd (spinsConsumed s));
               r = recordStep initial res activeBets (MARTINGALE_x (currentMultiplier s)) False s
           in if \<not> fst r then Break (snd r)
              else
                (case lastStepWon (snd r) of
                   Inl e \<Rightarrow> Raise e
                 | Inr roundWin \<Rightarrow>
                     let count = martingaleStepCount + 1;
                         profit = v_bankroll (snd r) - sequenceStartBankroll;
                         p = martingaleProgress limitType limitValue roundWin count profit (snd r)
                     in if currentMultiplier (snd p) > 10000 then Break (snd p)
                        else Continue (fst p, count, snd p)))"

lemma martingaleProgress_spins [simp]:
  "spinsConsumed (snd (martingaleProgress lt lv w c p s)) = spinsConsumed s"
  by (simp add: martingaleProgress_def split: MartingaleLimitType.splits)

lemma martingaleIter_spins:
  "martingaleIter rnd initial cfg lt lv start c s = Continue (a, c', s') \<Longrightarrow>
   spinsConsumed s' = Suc (spinsConsumed s)"
  by (auto simp: martingaleIter_def Let_def split: if_splits sum.splits)

function martingaleLoop ::
  "(nat \<Rightarrow> nat) \<Rightarrow> int \<Rightarrow> SimConfig \<Rightarrow> MartingaleLimitType \<Rightarrow> int \<Rightarrow> int \<Rightarrow> bool \<Rightarrow> int \<Rightarrow> run_state
     \<Rightarrow> error + run_state" where
  "martingaleLoop rnd initial cfg limitType limitValue start martingaleActive martingaleStepCount s =
     (if martingaleActive \<and> int (spinsConsumed s) < maxSpins cfg \<and> v_bankroll s > 0 then
        (case martingaleIter rnd initial cfg limitType limitValue start martingaleStepCount s of
           Break s1 \<Rightarrow> Inr s1
         | Raise e \<Rightarrow> Inl e
         | Continue x \<Rightarrow>
             martingaleLoop rnd initial cfg limitType limitValue start (fst x) (fst (snd x))
               (snd (snd x)))
      else Inr s)"
  by pat_completeness auto
termination
proof (relation "measure (\<lambda>(rnd, initial, cfg, lt, lv, start, a, c, s).
                            nat (maxSpins cfg) - spinsConsumed s)", goal_cases)
  case 1
  show ?case by simp
next
  case (2 rnd initial cfg lt lv start a c s x)
  then have "spinsConsumed (snd (snd x)) = Suc (spinsConsumed s)"
    by (cases x) (auto dest: martingaleIter_spins)
  with 2 show ?case by (auto simp: case_prod_beta)
qed

declare martingaleLoop.simps [simp del]

subsection \<open>The repeat-until loop\<close>

definition repeatIter ::
  "(nat \<Rightarrow> nat) \<Rightarrow> int \<Rightarrow> SimConfig \<Rightarrow> RepeatUntilType \<Rightarrow> int \<Rightarrow> int \<Rightarrow> int \<Rightarrow> int \<Rightarrow> run_state
     \<Rightarrow> (bool \<times> int \<times> int \<times> run_state, run_state) flow" where
  "repeatIter rnd initial cfg repeatType repeatValue seqStartBankroll loopSpins loopWins s =
     (let activeBets = scaledBets cfg s;
          totalWager = totalAmount activeBets
      in if totalWager > v_bankroll s then Break s
         else
           let res = generateSpin (rnd (spinsConsumed s));
               s1 = snd (recordStep initial res activeBets (REPEAT repeatType) False s)
           in case lastStepWon s1 of
                Inl e \<Rightarrow> Raise e
              | Inr w \<Rightarrow>
                  let spins = loopSpins + 1;
                      nwins = (if w then loopWins + 1 else loopWins);
                      a1 = (if repeatType = R_spins \<and> spins \<ge> repeatValue then False else True);
                      a2 = (if repeatType = R_wins \<and> nwins \<ge> repeatValue then False else a1);
                      a3 = (if repeatType = R_profit_target
                               \<and> v_bankroll s1 - seqStartBankroll \<ge> repeatValue
                            then False else a2);
                      a4 = (if repeatType = R_loss_limit
                               \<and> seqStartBankroll - v_bankroll s1 \<ge> repeatValue
                            then False else a3)
                  in Continue (a4, spins, nwins, s1))"

lemma repeatIter_spins:
  "repeatIter rnd initial cfg rt rv start ls lw s = Continue (a, ls', lw', s') \<Longrightarrow>
   spinsConsumed s' = Suc (spinsConsumed s)"
  by (auto simp: repeatIter_def Let_def split: if_splits sum.splits)

function repeatLoop ::
  "(nat \<Rightarrow> nat) \<Rightarrow> int \<Rightarrow> SimConfig \<Rightarrow> RepeatUntilType \<Rightarrow> int \<Rightarrow> int \<Rightarrow> bool \<Rightarrow> int \<Rightarrow> int \<Rightarrow> run_state
     \<Rightarrow> error + run_state" where
  "repeatLoop rnd initial cfg repeatType repeatValue start loopActive loopSpins loopWins s =
     (if loopActive \<and> int (spinsConsumed s) < maxSpins cfg \<and> v_bankroll s > 0 then
        (case repeatIter rnd initial cfg repeatType repeatValue start loopSpins loopWins s of
           Break s1 \<Rightarrow> Inr s1
         | Raise e \<Rightarrow> Inl e
         | Continue x \<Rightarrow>
             repeatLoop rnd initial cfg repeatType repeatValue start (fst x) (fst (snd x))
               (fst (snd (snd x))) (snd (snd (snd x))))
      else Inr s)"
  by pat_completeness auto
termination
proof (relation "measure (\<lambda>(rnd, initial, cfg, rt, rv, start, a, ls, lw, s).
                            nat (maxSpins cfg) - spinsConsumed s)", goal_cases)
  case 1
  show ?case by simp
next
  case (2 rnd initial cfg rt rv start a ls lw s x)
  then have "spinsConsumed (snd (snd (snd x))) = Suc (spinsConsumed s)"
    by (cases x) (auto dest: repeatIter_spins)
  with 2 show ?case by (auto simp: case_prod_beta)
qed

declare repeatLoop.simps [simp del]

subsection \<open>One pass of the main loop\<close>

text \<open>The visit of a martingale node: the inner loop, then the branch on its outcome.\<close>

definition martingaleNode ::
  "(nat \<Rightarrow> nat) \<Rightarrow> int \<Rightarrow> store \<Rightarrow> ref \<Rightarrow> SimConfig \<Rightarrow> run_state
     \<Rightarrow> (run_state, run_state) flow" where
  "martingaleNode rnd initial h rootRef cfg s =
     (let cn = h (currentNode s);
          limitType = (case martingaleLimitType cn of None \<Rightarrow> M_until_bankrupt | Some t \<Rightarrow> t);
          limitValue = (case martingaleLimitValue cn of None \<Rightarrow> 0 | Some v \<Rightarrow> v);
          sequenceStartBankroll = v_bankroll s
      in case martingaleLoop rnd initial cfg limitType limitValue sequenceStartBankroll True 0 s of
           Inl e \<Rightarrow> Raise e
         | Inr s1 \<Rightarrow>
             let sequenceWon = (v_bankroll s1 \<ge> sequenceStartBankroll);
                 nextNode = (if sequenceWon then win cn else loss cn)
             in Continue (enterNode h rootRef nextNode s1))"

text \<open>
  The visit of a repeat-until node; \<^verbatim>\<open>repeatUntilValue || 1\<close> replaces a missing or zero
  value by 1, and the exit is always through the win child.
\<close>

definition repeatNode ::
  "(nat \<Rightarrow> nat) \<Rightarrow> int \<Rightarrow> store \<Rightarrow> ref \<Rightarrow> SimConfig \<Rightarrow> run_state
     \<Rightarrow> (run_state, run_state) flow" where
  "repeatNode rnd initial h rootRef cfg s =
     (let cn = h (currentNode s);
          repeatType = (case repeatUntilType cn of None \<Rightarrow> R_spins | Some t \<Rightarrow> t);
          repeatValue = (case repeatUntilValue cn of
                           None \<Rightarrow> 1 | Some v \<Rightarrow> if v = 0 then 1 else v);
          seqStartBankroll = v_bankroll s
      in case repeatLoop rnd initial cfg repeatType repeatValue seqStartBankroll True 0 0 s of
           Inl e \<Rightarrow> Raise e
         | Inr s1 \<Rightarrow> Continue (enterNode h rootRef (win cn) s1))"

text \<open>The standard single spin of every other node type.\<close>

definition singleSpin ::
  "(nat \<Rightarrow> nat) \<Rightarrow> int \<Rightarrow> store \<Rightarrow> ref \<Rightarrow> SimConfig \<Rightarrow> run_state
     \<Rightarrow> (run_state, run_state) flow" where
  "singleSpin rnd initial h rootRef cfg s =
     (let activeBets = scaledBets cfg s;
          totalWager = totalAmount activeBets
      in if totalWager > v_bankroll s then Break s
         else
           let res = generateSpin (rnd (spinsConsumed s));
               tag = (if length activeBets > 0
                      then (if length (v_steps s) = 0 then START else BET)
                      else NO_BET);
               s1 = snd (recordStep initial res activeBets tag False s)
           in case lastStepWon s1 of
                Inl e \<Rightarrow> Raise e
              | Inr roundWin \<Rightarrow>
                  let cn = h (currentNode s1);
                      nextNode = (if roundWin then win cn else loss cn)
                  in Continue (enterNodeSingle rnd initial h rootRef nextNode s1))"

text \<open>
  The body of the main \<^verbatim>\<open>while\<close>: the three terminal tests, then the dispatch on the
  type of the current node.
\<close>

definition mainBody ::
  "(nat \<Rightarrow> nat) \<Rightarrow> int \<Rightarrow> store \<Rightarrow> StrategyConfig \<Rightarrow> SimConfig \<Rightarrow> run_state
     \<Rightarrow> (run_state, run_state) flow" where
  "mainBody rnd initial h strategy cfg s =
     (if v_bankroll s \<le> stopLoss strategy then Break s
      else if takeProfit strategy > 0 \<and> v_bankroll s \<ge> takeProfit strategy then Break s
      else if v_bankroll s \<le> 0 then Break s
      else if ntype (h (currentNode s)) = martingale
        then martingaleNode rnd initial h (rootNode strategy) cfg s
      else if ntype (h (currentNode s)) = repeat_until
        then repeatNode rnd initial h (rootNode strategy) cfg s
      else singleSpin rnd initial h (rootNode strategy) cfg s)"

text \<open>
  The main loop has no bound of its own on the number of passes: a pass that draws no
  spin leaves \<^verbatim>\<open>spinsConsumed\<close> as it was. A run that never leaves the loop is \<open>None\<close>.
\<close>

partial_function (option) mainLoop ::
  "(nat \<Rightarrow> nat) \<Rightarrow> int \<Rightarrow> store \<Rightarrow> StrategyConfig \<Rightarrow> SimConfig \<Rightarrow> run_state
     \<Rightarrow> (error + run_state) option" where
  "mainLoop rnd initial h strategy cfg s =
     (if int (spinsConsumed s) < maxSpins cfg then
        (case mainBody rnd initial h strategy cfg s of
           Break s1 \<Rightarrow> Some (Inr s1)
         | Raise e \<Rightarrow> Some (Inl e)
         | Continue s1 \<Rightarrow> mainLoop rnd initial h strategy cfg s1)
      else Some (Inr s))"

declare mainLoop.simps [code]

subsection \<open>The run\<close>

definition initState :: "int \<Rightarrow> store \<Rightarrow> ref \<Rightarrow> run_state" where
  "initState initial h rootRef =
     \<lparr>v_bankroll = initial, v_steps = [], currentNode = rootRef,
      currentBaseBets = rootBets h rootRef, currentMultiplier = 1, spinsConsumed = 0,
      v_wins = 0, v_losses = 0, v_maxDrawdown = 0, v_maxUpside = 0,
      currentWinStreak = 0, currentLossStreak = 0,
      v_longestWinStreak = 0, v_longestLossStreak = 0\<rparr>"

text \<open>
  The wait phases before the main loop. A number is truthy when it is present and not 0,
  a string when it is present and not empty.
\<close>

definition preSim :: "(nat \<Rightarrow> nat) \<Rightarrow> int \<Rightarrow> store \<Rightarrow> ref \<Rightarrow> run_state \<Rightarrow> run_state" where
  "preSim rnd initial h rootRef s =
     (let rn = h rootRef
      in if ntype rn = wait_spins \<and> nvalue rn \<noteq> None \<and> nvalue rn \<noteq> Some 0
           then waitSpins rnd initial (nat (the (nvalue rn))) s
         else if ntype rn = wait_condition \<and> condition rn \<noteq> None \<and> condition rn \<noteq> Some []
           then waitConditionLoop rnd initial (the (condition rn)) False 0 s
         else s)"

text \<open>
  The returned object. The ROI is \<^verbatim>\<open>((bankroll - initialBankroll) / initialBankroll) * 100\<close>,
  a quotient and a product of doubles.
\<close>

definition mkResult :: "int \<Rightarrow> SimConfig \<Rightarrow> run_state \<Rightarrow> SimulationResult" where
  "mkResult initial cfg s =
     \<lparr>steps = v_steps s,
      stats =
        \<lparr>initialBankroll = initial, finalBankroll = v_bankroll s,
         totalSpins = length (v_steps s), wins = v_wins s, losses = v_losses s,
         maxDrawdown = v_maxDrawdown s, maxUpside = v_maxUpside s,
         longestWinStreak = v_longestWinStreak s, longestLossStreak = v_longestLossStreak s,
         roi = (if initial > 0
                then toDouble (toDouble (of_int (v_bankroll s - initial) / of_int initial) * 100)
                else 0),
         config = cfg\<rparr>\<rparr>"

text \<open>The variables of the run when the main loop is left.\<close>

definition finalState ::
  "(nat \<Rightarrow> nat) \<Rightarrow> store \<Rightarrow> int \<Rightarrow> StrategyConfig \<Rightarrow> SimConfig \<Rightarrow> (error + run_state) option" where
  "finalState rnd h initial strategy cfg =
     mainLoop rnd initial h strategy cfg
       (preSim rnd initial h (rootNode strategy) (initState initial h (rootNode strategy)))"

definition runSimulation ::
  "(nat \<Rightarrow> nat) \<Rightarrow> store \<Rightarrow> int \<Rightarrow> StrategyConfig \<Rightarrow> SimConfig
     \<Rightarrow> (error + SimulationResult) option" where
  "runSimulation rnd h initial strategy cfg =
     map_option (map_sum id (mkResult initial cfg)) (finalState rnd h initial strategy cfg)"

section \<open>The playback statistics\<close>

text \<open>
  \<^verbatim>\<open>displayedStats\<close> of the application: the statistics shown when the first
  \<open>playbackIndex\<close> entries of a finished run are on display. The accumulator of the
  \<^verbatim>\<open>forEach\<close> is the record of its local variables.
\<close>

record playback =
  p_wins :: nat
  p_losses :: nat
  p_currentWinStreak :: nat
  p_currentLossStreak :: nat
  p_longestWinStreak :: nat
  p_longestLossStreak :: nat
  p_maxDrawdown :: int
  p_maxUpside :: int
  p_bankroll :: int

definition playbackStep :: "int \<Rightarrow> SimulationStep \<Rightarrow> playback \<Rightarrow> playback" where
  "playbackStep initial e p =
     (let p1 = (if won e then
                  p\<lparr>p_wins := p_wins p + 1, p_currentWinStreak := p_currentWinStreak p + 1,
                    p_currentLossStreak := 0\<rparr>
                else
                  p\<lparr>p_losses := p_losses p + 1,
                    p_currentLossStreak := p_currentLossStreak p + 1,
                    p_currentWinStreak := 0\<rparr>);
          p2 = (if p_currentWinStreak p1 > p_longestWinStreak p1
                then p1\<lparr>p_longestWinStreak := p_currentWinStreak p1\<rparr> else p1);
          p3 = (if p_currentLossStreak p2 > p_longestLossStreak p2
                then p2\<lparr>p_longestLossStreak := p_currentLossStreak p2\<rparr> else p2);
          p4 = p3\<lparr>p_bankroll := bankroll e\<rparr>;
          diff = p_bankroll p4 - initial;
          p5 = (if diff < p_maxDrawdown p4 then p4\<lparr>p_maxDrawdown := diff\<rparr> else p4)
      in if diff > p_maxUpside p5 then p5\<lparr>p_maxUpside := diff\<rparr> else p5)"

definition displayedStats :: "SimulationResult \<Rightarrow> nat \<Rightarrow> SimulationStats" where
  "displayedStats currentSim playbackIndex =
     (if playbackIndex = 0 then
        (stats currentSim)
          \<lparr>wins := 0, losses := 0, longestWinStreak := 0, longestLossStreak := 0,
           maxDrawdown := 0, maxUpside := 0,
           finalBankroll := initialBankroll (stats currentSim), totalSpins := 0, roi := 0\<rparr>
      else if playbackIndex \<ge> length (steps currentSim) then stats currentSim
      else
        let initial = initialBankroll (stats currentSim);
            displayedSteps = take playbackIndex (steps currentSim);
            p = fold (playbackStep initial) displayedSteps
                  \<lparr>p_wins = 0, p_losses = 0, p_currentWinStreak = 0, p_currentLossStreak = 0,
                   p_longestWinStreak = 0, p_longestLossStreak = 0,
                   p_maxDrawdown = 0, p_maxUpside = 0, p_bankroll = initial\<rparr>
        in (stats currentSim)
             \<lparr>wins := p_wins p, losses := p_losses p,
              longestWinStreak := p_longestWinStreak p,
              longestLossStreak := p_longestLossStreak p,
              maxDrawdown := p_maxDrawdown p, maxUpside := p_maxUpside p,
              finalBankroll := p_bankroll p, totalSpins := length displayedSteps,
              roi := (if initial > 0
                      then toDouble
                             (toDouble (of_int (p_bankroll p - initial) / of_int initial) * 100)
                      else 0)\<rparr>)"

section \<open>Notions used in the statements and proofs\<close>

text \<open>
  The tests that have passed when \<^verbatim>\<open>recordStep\<close> is called with a given action tag: a
  wait step is called without any test; a spin of the martingale or repeat-until loop after
  the test of the inner loop and the affordability test; any other spin after the tests of
  the main loop and the affordability test.
\<close>

definition guardOk ::
  "StrategyConfig \<Rightarrow> SimConfig \<Rightarrow> action \<Rightarrow> bool \<Rightarrow> PlacedBet list \<Rightarrow> run_state \<Rightarrow> bool" where
  "guardOk strategy cfg tag isWaitStep bs s =
     (case tag of
        WAITING \<Rightarrow> isWaitStep
      | WAITING_FOR c \<Rightarrow> isWaitStep
      | MARTINGALE_x m \<Rightarrow>
          \<not> isWaitStep \<and> int (spinsConsumed s) < maxSpins cfg \<and> v_bankroll s > 0
          \<and> totalAmount bs \<le> v_bankroll s
      | REPEAT t \<Rightarrow>
          \<not> isWaitStep \<and> int (spinsConsumed s) < maxSpins cfg \<and> v_bankroll s > 0
          \<and> totalAmount bs \<le> v_bankroll s
      | _ \<Rightarrow>
          \<not> isWaitStep \<and> int (spinsConsumed s) < maxSpins cfg
          \<and> v_bankroll s > stopLoss strategy
          \<and> \<not> (takeProfit strategy > 0 \<and> v_bankroll s \<ge> takeProfit strategy)
          \<and> v_bankroll s > 0 \<and> totalAmount bs \<le> v_bankroll s)"

text \<open>
  Two states that differ at most in the cursor, the base bets and the multiplier.
\<close>

definition sameLedger :: "run_state \<Rightarrow> run_state \<Rightarrow> bool" where
  "sameLedger s1 s2 =
     (s2 = s1\<lparr>currentNode := currentNode s2, currentBaseBets := currentBaseBets s2,
             currentMultiplier := currentMultiplier s2\<rparr>)"

text \<open>
  \<open>runs initial strategy cfg s s'\<close>: the state \<open>s'\<close> comes from \<open>s\<close> by guarded calls
  of \<^verbatim>\<open>recordStep\<close> and moves of the cursor.
\<close>

inductive runs :: "int \<Rightarrow> StrategyConfig \<Rightarrow> SimConfig \<Rightarrow> run_state \<Rightarrow> run_state \<Rightarrow> bool"
  for initial strategy cfg where
  runs_refl: "runs initial strategy cfg s s"
| runs_spin: "runs initial strategy cfg s s1 \<Longrightarrow> guardOk strategy cfg tag w bs s1 \<Longrightarrow>
     runs initial strategy cfg s (snd (recordStep initial res bs tag w s1))"
| runs_move: "runs initial strategy cfg s s1 \<Longrightarrow> sameLedger s1 s2 \<Longrightarrow>
     runs initial strategy cfg s s2"




fun isWaitTag :: "action \<Rightarrow> bool" where
  "isWaitTag WAITING = True"
| "isWaitTag (WAITING_FOR c) = True"
| "isWaitTag t = False"

text \<open>
  \<open>waited s s'\<close>: the state \<open>s'\<close> comes from \<open>s\<close> by wait spins alone.
\<close>

definition waited :: "run_state \<Rightarrow> run_state \<Rightarrow> bool" where
  "waited s s' =
     (\<exists>ws. v_steps s' = v_steps s @ ws
        \<and> list_all (\<lambda>e. net e = 0 \<and> isWaitTag (actionType e)) ws
        \<and> v_bankroll s' = v_bankroll s \<and> v_wins s' = v_wins s \<and> v_losses s' = v_losses s
        \<and> spinsConsumed s' = spinsConsumed s + length ws)"

text \<open>
  The conditions under which the main loop is left.
\<close>

definition halted :: "StrategyConfig \<Rightarrow> SimConfig \<Rightarrow> run_state \<Rightarrow> bool" where
  "halted strategy cfg s =
     (int (spinsConsumed s) \<ge> maxSpins cfg
      \<or> v_bankroll s \<le> stopLoss strategy
      \<or> (takeProfit strategy > 0 \<and> v_bankroll s \<ge> takeProfit strategy)
      \<or> v_bankroll s \<le> 0
      \<or> totalAmount (scaledBets cfg s) > v_bankroll s)"

text \<open>
  The tags of the spins of one martingale visit that starts with the multiplier \<open>m\<close>:
  each spin carries the current multiplier, which doubles after a spin that is not won.
\<close>

fun tagsOk :: "int \<Rightarrow> SimulationStep list \<Rightarrow> bool" where
  "tagsOk m [] = True"
| "tagsOk m (e # es) = (actionType e = MARTINGALE_x m \<and> tagsOk (if won e then m else 2 * m) es)"

text \<open>
  The multiplier after a visit with spin limit \<open>lv\<close> that starts with the multiplier
  \<open>m\<close> and the step count \<open>c\<close> and draws the given spins: the spin that reaches the limit
  leaves the multiplier as it is.
\<close>

fun exitMult :: "int \<Rightarrow> int \<Rightarrow> int \<Rightarrow> SimulationStep list \<Rightarrow> int" where
  "exitMult m lv c [] = m"
| "exitMult m lv c (e # es) =
     (if lv \<le> c + 1 then m else exitMult (if won e then m else 2 * m) lv (c + 1) es)"

text \<open>
  The three tests on the bankroll at the head of the main loop, all passed at the bankroll
  \<open>b\<close>: above the stop-loss, below a positive take-profit, above 0.
\<close>

definition testsPassed :: "StrategyConfig \<Rightarrow> int \<Rightarrow> bool" where
  "testsPassed strategy b =
     (b > stopLoss strategy \<and> \<not> (takeProfit strategy > 0 \<and> b \<ge> takeProfit strategy) \<and> b > 0)"

text \<open>
  The kinds of action tags: the spin of a single-spin node, a spin of the martingale loop,
  a spin of the repeat-until loop.
\<close>

fun isSpinTag :: "action \<Rightarrow> bool" where
  "isSpinTag START = True"
| "isSpinTag BET = True"
| "isSpinTag NO_BET = True"
| "isSpinTag t = False"

fun isMartingaleTag :: "action \<Rightarrow> bool" where
  "isMartingaleTag (MARTINGALE_x m) = True"
| "isMartingaleTag t = False"

fun isRepeatTag :: "action \<Rightarrow> bool" where
  "isRepeatTag (REPEAT t) = True"
| "isRepeatTag t = False"

text \<open>
  The entries that one run of an inner loop appends to the ledger, from the bankroll
  \<open>b\<close> and \<open>n\<close> spins consumed: each entry has a tag of the loop's kind and is drawn
  with the spin budget not exhausted and the bankroll above 0, in the state that the entry
  before it has left (the bankroll before a spin is \<open>bankroll e - net e\<close>, the number of
  spins consumed before it is \<open>spinIndex e - 1\<close>).
\<close>

fun innerSpins :: "SimConfig \<Rightarrow> (action \<Rightarrow> bool) \<Rightarrow> int \<Rightarrow> nat \<Rightarrow> SimulationStep list \<Rightarrow> bool" where
  "innerSpins cfg kind b n [] = True"
| "innerSpins cfg kind b n (e # es) =
     (kind (actionType e) \<and> int n < maxSpins cfg \<and> b > 0
      \<and> spinIndex e = Suc n \<and> bankroll e - net e = b
      \<and> innerSpins cfg kind (bankroll e) (Suc n) es)"

text \<open>
  What holds of a ledger entry, given the tag \<open>prev\<close> of the entry before it (\<open>None\<close>
  for the first entry).
\<close>

definition spinOk :: "StrategyConfig \<Rightarrow> SimConfig \<Rightarrow> action option \<Rightarrow> SimulationStep \<Rightarrow> bool" where
  "spinOk strategy cfg prev e =
     ((isSpinTag (actionType e) \<longrightarrow>
         int (spinIndex e) \<le> maxSpins cfg \<and> testsPassed strategy (bankroll e - net e))
    \<and> (isMartingaleTag (actionType e) \<longrightarrow>
         int (spinIndex e) \<le> maxSpins cfg \<and> bankroll e - net e > 0
         \<and> (testsPassed strategy (bankroll e - net e)
            \<or> (case prev of None \<Rightarrow> False | Some p \<Rightarrow> isMartingaleTag p)))
    \<and> (isRepeatTag (actionType e) \<longrightarrow>
         int (spinIndex e) \<le> maxSpins cfg \<and> bankroll e - net e > 0
         \<and> (testsPassed strategy (bankroll e - net e)
            \<or> (case prev of None \<Rightarrow> False | Some p \<Rightarrow> isRepeatTag p))))"

text \<open>
  \<open>spinOk\<close> for every entry of a ledger.
\<close>

fun guarded :: "StrategyConfig \<Rightarrow> SimConfig \<Rightarrow> action option \<Rightarrow> SimulationStep list \<Rightarrow> bool" where
  "guarded strategy cfg prev [] = True"
| "guarded strategy cfg prev (e # es) =
     (spinOk strategy cfg prev e \<and> guarded strategy cfg (Some (actionType e)) es)"

definition lastTag :: "action option \<Rightarrow> SimulationStep list \<Rightarrow> action option" where
  "lastTag prev es = (if es = [] then prev else Some (actionType (last es)))"

section \<open>Strategies and spin sequences of the instances\<close>

text \<open>
  A node with a type, bets and children and none of the optional parameters.
\<close>

definition plainNode ::
  "ProgressionType \<Rightarrow> PlacedBet list option \<Rightarrow> ref option \<Rightarrow> ref option \<Rightarrow> StrategyNode" where
  "plainNode t bs w l =
     \<lparr>ntype = t, bets = bs, nvalue = None, condition = None, postWaitAction = None,
      martingaleLimitType = None, martingaleLimitValue = None,
      repeatUntilType = None, repeatUntilValue = None, win = w, loss = l\<rparr>"

definition straight17 :: "int \<Rightarrow> PlacedBet" where
  "straight17 a = \<lparr>bet_id = ''s17'', btype = STRAIGHT, numbers = [17], amount = a, label = None\<rparr>"

text \<open>
  The wheel stops on 0 at every spin.
\<close>

definition zeros :: "nat \<Rightarrow> nat" where
  "zeros k = 0"

text \<open>
  A root that bets 10 on 17 and has itself as win child.
\<close>

definition loopStore :: store where
  "loopStore n = plainNode custom_bet (Some [straight17 10]) (Some 0) None"

text \<open>
  A martingale root (without limit: until bankrupt) that has itself as win child.
\<close>

definition martingaleStore :: store where
  "martingaleStore n = plainNode martingale (Some [straight17 10]) (Some 0) None"

definition limits :: "int \<Rightarrow> int \<Rightarrow> StrategyConfig" where
  "limits sl tp = \<lparr>rootNode = 0, stopLoss = sl, takeProfit = tp\<rparr>"

definition table :: "int \<Rightarrow> int \<Rightarrow> SimConfig" where
  "table n tmax = \<lparr>maxSpins = n, tableMin = 1, tableMax = tmax\<rparr>"

text \<open>
  A root that waits 2 spins and then bets 10 on 17.
\<close>

definition waitRootStore :: store where
  "waitRootStore n = (plainNode wait_spins (Some [straight17 10]) None None)\<lparr>nvalue := Some 2\<rparr>"

text \<open>
  A betting root whose loss child waits for red.
\<close>

definition waitChildStore :: store where
  "waitChildStore n =
     (if n = 0 then plainNode custom_bet (Some [straight17 10]) None (Some 1)
      else (plainNode wait_condition None None None)\<lparr>condition := Some ''red''\<rparr>)"

text \<open>
  A root that waits for red and then bets 10 on 17.
\<close>

definition waitConditionRootStore :: store where
  "waitConditionRootStore n =
     (plainNode wait_condition (Some [straight17 10]) None None)\<lparr>condition := Some ''red''\<rparr>"

text \<open>
  The wheel stops on 0, except for the second spin, which is 1 (red).
\<close>

definition redAtSecond :: "nat \<Rightarrow> nat" where
  "redAtSecond k = (if k = 1 then 1 else 0)"

text \<open>
  A root without bets and without children.
\<close>

definition noBetStore :: store where
  "noBetStore n = plainNode custom_bet None None None"

text \<open>
  A root without bets whose loss child waits 1 spin.
\<close>

definition noBetWaitStore :: store where
  "noBetWaitStore n =
     (if n = 0 then plainNode custom_bet None None (Some 1)
      else (plainNode wait_spins None None None)\<lparr>nvalue := Some 1\<rparr>)"

text \<open>
  A martingale root limited to 3 spins, whose loss child repeats the bet.
\<close>

definition spinCountStore :: store where
  "spinCountStore n =
     (if n = 0 then
        (plainNode martingale (Some [straight17 10]) None (Some 1))
          \<lparr>martingaleLimitType := Some M_spin_count, martingaleLimitValue := Some 3\<rparr>
      else plainNode same_bet None None None)"

section \<open>Properties of the double arithmetic\<close>

lemma roundEven_of_int [simp]: "roundEven (of_int k) = k"
  by (simp add: roundEven_def)

lemma toDouble_zero [simp]: "toDouble 0 = 0"
  by (simp add: toDouble_def)





text \<open>
  The arithmetic on instances: the quotient \<open>100 / 195\<close> is rounded down, so that the
  scale-down of a wager of 195 to a table maximum of 100 is 99, and the ROI of a run from
  100 to 107 is the double next above 7.
\<close>

lemma capBets_example:
  "map amount (capBets 100 195 [\<lparr>bet_id = ''a'', btype = STRAIGHT, numbers = [17], amount = 195,
                                  label = None\<rparr>]) = [99]
   \<and> map amount (capBets 1000 1160 [\<lparr>bet_id = ''a'', btype = STRAIGHT, numbers = [17],
                                      amount = 1160, label = None\<rparr>]) = [999]
   \<and> map amount (capBets 15 30 [\<lparr>bet_id = ''a'', btype = STRAIGHT, numbers = [17], amount = 30,
                                  label = None\<rparr>]) = [15]"
  by code_simp

lemma roi_example:
  "toDouble (toDouble (of_int (107 - 100) / of_int 100) * 100) = 7 + 1 / 2 ^ 50"
  by code_simp

section \<open>Properties of the bet resolver\<close>








text \<open>
  Claim C7, as stated, fails for DOZEN: a DOZEN wager labelled \<open>1st 12\<close> whose number
  list is \<open>[13]\<close> wins on 5, which is not in the list, and loses on 13, which is.
\<close>

theorem dozen_ignores_numbers:
  "isWin (Num 5)
     \<lparr>bet_id = ''d'', btype = DOZEN, numbers = [13], amount = 5, label = Some ''1st 12''\<rparr>
   \<and> getResultValue (Num 5) \<notin> set [13]
   \<and> \<not> isWin (Num 13)
     \<lparr>bet_id = ''d'', btype = DOZEN, numbers = [13], amount = 5, label = Some ''1st 12''\<rparr>
   \<and> getResultValue (Num 13) \<in> set [13]"
  by (simp add: isWin_def getResultValue_def)

text \<open>
  Claim C7, amended. A DOZEN or COLUMN wager loses when the outcome is 0 or double-zero.
  Otherwise a COLUMN wager with a non-empty number list wins exactly when the normalized
  outcome is in the list, and a COLUMN wager with an empty list follows the modulo-3 rule
  of its label (remainder 1 bottom, 2 middle, 0 top); a DOZEN wager wins exactly when its
  label names the dozen that holds the outcome (\<open>1st 12\<close> for 1 to 12, \<open>2nd 12\<close> for 13
  to 24, \<open>3rd 12\<close> for 25 to 36), whatever its number list is.
\<close>

theorem dozen_column_rule:
  assumes "btype b = DOZEN \<or> btype b = COLUMN"
  shows "(getResultValue r = 0 \<or> getResultValue r = 37 \<longrightarrow> \<not> isWin r b)
   \<and> (getResultValue r \<noteq> 0 \<and> getResultValue r \<noteq> 37 \<longrightarrow>
        (btype b = COLUMN \<and> numbers b \<noteq> [] \<longrightarrow>
           isWin r b = (getResultValue r \<in> set (numbers b)))
      \<and> (btype b = COLUMN \<and> numbers b = [] \<longrightarrow>
           isWin r b = (label b = Some ''2 to 1 (Bot)'' \<and> getResultValue r mod 3 = 1
                       \<or> label b = Some ''2 to 1 (Mid)'' \<and> getResultValue r mod 3 = 2
                       \<or> label b = Some ''2 to 1 (Top)'' \<and> getResultValue r mod 3 = 0))
      \<and> (btype b = DOZEN \<longrightarrow>
           isWin r b = (label b = Some ''1st 12'' \<and> 1 \<le> getResultValue r \<and> getResultValue r \<le> 12
                       \<or> label b = Some ''2nd 12'' \<and> 13 \<le> getResultValue r \<and> getResultValue r \<le> 24
                       \<or> label b = Some ''3rd 12'' \<and> 25 \<le> getResultValue r \<and> getResultValue r \<le> 36)))"
  using assms by (auto simp: isWin_def Let_def)

theorem dozen_column_rule_witness:
  "isWin (Num 5)
     \<lparr>bet_id = ''d'', btype = DOZEN, numbers = [13], amount = 5, label = Some ''1st 12''\<rparr>
   \<and> \<not> isWin DoubleZero
     \<lparr>bet_id = ''c'', btype = COLUMN, numbers = [], amount = 5, label = Some ''2 to 1 (Top)''\<rparr>
   \<and> isWin (Num 8)
     \<lparr>bet_id = ''c'', btype = COLUMN, numbers = [], amount = 5, label = Some ''2 to 1 (Mid)''\<rparr>
   \<and> isWin (Num 7)
     \<lparr>bet_id = ''c'', btype = COLUMN, numbers = [7, 4], amount = 5, label = None\<rparr>"
  using dozen_column_rule [of "\<lparr>bet_id = ''d'', btype = DOZEN, numbers = [13], amount = 5, label = Some ''1st 12''\<rparr>" "Num 5"]
    dozen_column_rule [of "\<lparr>bet_id = ''c'', btype = COLUMN, numbers = [], amount = 5, label = Some ''2 to 1 (Top)''\<rparr>" DoubleZero]
    dozen_column_rule [of "\<lparr>bet_id = ''c'', btype = COLUMN, numbers = [], amount = 5, label = Some ''2 to 1 (Mid)''\<rparr>" "Num 8"]
    dozen_column_rule [of "\<lparr>bet_id = ''c'', btype = COLUMN, numbers = [7, 4], amount = 5, label = None\<rparr>" "Num 7"]
  by (simp add: getResultValue_def)

section \<open>Every run is a sequence of guarded spins\<close>

lemma runs_trans:
  "runs initial strategy cfg s1 s2 \<Longrightarrow> runs initial strategy cfg s s1 \<Longrightarrow>
   runs initial strategy cfg s s2"
  by (induction rule: runs.induct) (auto intro: runs.intros)

lemma runs_spin1:
  "guardOk strategy cfg tag w bs s \<Longrightarrow>
   runs initial strategy cfg s (snd (recordStep initial res bs tag w s))"
  by (rule runs_spin [OF runs_refl])

lemma runs_move1: "sameLedger s s2 \<Longrightarrow> runs initial strategy cfg s s2"
  by (rule runs_move [OF runs_refl])

lemma waitSpins_runs: "runs initial strategy cfg s (waitSpins rnd initial k s)"
proof (induction k arbitrary: s)
  case 0
  show ?case by (simp add: runs_refl)
next
  case (Suc k)
  have "runs initial strategy cfg s
          (snd (recordStep initial (generateSpin (rnd (spinsConsumed s))) [] WAITING True s))"
    by (rule runs_spin1) (simp add: guardOk_def)
  with Suc.IH show ?case
    by (auto intro: runs_trans)
qed

lemma waitConditionLoop_runs:
  "runs initial strategy cfg s (waitConditionLoop rnd initial cond met safety s)"
proof (induction rnd initial cond met safety s rule: waitConditionLoop.induct)
  case (1 rnd initial cond conditionMet safety s)
  show ?case
  proof (cases "\<not> conditionMet \<and> safety < 200")
    case False
    then show ?thesis
      by (subst waitConditionLoop.simps) (auto simp: runs_refl)
  next
    case True
    have step: "runs initial strategy cfg s
          (snd (recordStep initial (generateSpin (rnd (spinsConsumed s))) []
                 (WAITING_FOR (toUpperCase cond)) True s))"
      by (rule runs_spin1) (simp add: guardOk_def)
    from 1 [OF True refl refl refl refl] step True show ?thesis
      by (subst waitConditionLoop.simps) (auto simp: Let_def intro: runs_trans)
  qed
qed

lemma sameLedger_simps [simp]:
  "sameLedger s s"
  "sameLedger s (s\<lparr>currentMultiplier := m\<rparr>)"
  "sameLedger s (s\<lparr>currentNode := n\<rparr>)"
  "sameLedger s (s\<lparr>currentBaseBets := b\<rparr>)"
  "sameLedger s (s\<lparr>currentMultiplier := m, currentBaseBets := b\<rparr>)"
  "sameLedger s (s\<lparr>currentBaseBets := b, currentMultiplier := m\<rparr>)"
  "sameLedger s (s\<lparr>currentMultiplier := m, currentBaseBets := b, currentNode := n\<rparr>)"
  "sameLedger s (s\<lparr>currentBaseBets := b, currentMultiplier := m, currentNode := n\<rparr>)"
  by (simp_all add: sameLedger_def)

lemma sameLedger_trans: "sameLedger s1 s2 \<Longrightarrow> sameLedger s2 s3 \<Longrightarrow> sameLedger s1 s3"
  unfolding sameLedger_def
  by (cases s1, cases s2, cases s3) simp

lemma martingaleProgress_same: "sameLedger s (snd (martingaleProgress lt lv w c p s))"
  by (simp add: martingaleProgress_def split: MartingaleLimitType.splits)

lemma toRoot_same: "sameLedger s (toRoot h r s)"
  by (simp add: toRoot_def)

lemma loadNode_same: "sameLedger s (loadNode h n s)"
  by (auto simp: loadNode_def Let_def intro: sameLedger_trans [of s "s\<lparr>currentNode := n\<rparr>"])

lemma nodeModifier_same: "sameLedger s (nodeModifier h r s)"
  by (simp add: nodeModifier_def Let_def split: ProgressionType.splits)

lemma enterNode_same: "sameLedger s (enterNode h r nx s)"
  by (auto simp: enterNode_def toRoot_same split: option.splits
      intro: sameLedger_trans [OF loadNode_same nodeModifier_same])

lemma martingaleIter_runs:
  assumes "int (spinsConsumed s) < maxSpins cfg" and "v_bankroll s > 0"
  shows "martingaleIter rnd initial cfg lt lv start c s = Continue (a, c', s') \<Longrightarrow>
           runs initial strategy cfg s s'"
    and "martingaleIter rnd initial cfg lt lv start c s = Break s' \<Longrightarrow>
           runs initial strategy cfg s s'"
proof -
  let ?bs = "scaleBets (currentMultiplier s) (currentBaseBets s)"
  let ?r = "recordStep initial (generateSpin (rnd (spinsConsumed s))) ?bs
              (MARTINGALE_x (currentMultiplier s)) False s"
  have spin: "totalAmount ?bs \<le> v_bankroll s \<Longrightarrow> runs initial strategy cfg s (snd ?r)"
    using assms by (intro runs_spin1) (simp add: guardOk_def)
  have prog: "totalAmount ?bs \<le> v_bankroll s \<Longrightarrow>
      runs initial strategy cfg s (snd (martingaleProgress lt lv w n p (snd ?r)))" for w n p
    by (rule runs_move [OF spin martingaleProgress_same])
  show "martingaleIter rnd initial cfg lt lv start c s = Continue (a, c', s') \<Longrightarrow>
           runs initial strategy cfg s s'"
    using prog
    by (auto simp: martingaleIter_def Let_def split: if_splits sum.splits)
  show "martingaleIter rnd initial cfg lt lv start c s = Break s' \<Longrightarrow>
           runs initial strategy cfg s s'"
    using prog spin
    by (auto simp: martingaleIter_def Let_def runs_refl split: if_splits sum.splits)
qed

lemma martingaleLoop_runs:
  "martingaleLoop rnd initial cfg lt lv start a c s = Inr s' \<Longrightarrow>
   runs initial strategy cfg s s'"
proof (induction rnd initial cfg lt lv start a c s rule: martingaleLoop.induct)
  case (1 rnd initial cfg lt lv start a c s)
  show ?case
  proof (cases "a \<and> int (spinsConsumed s) < maxSpins cfg \<and> v_bankroll s > 0")
    case False
    with "1.prems" show ?thesis
      by (subst (asm) martingaleLoop.simps) (auto simp: runs_refl)
  next
    case True
    show ?thesis
    proof (cases "martingaleIter rnd initial cfg lt lv start c s")
      case (Break s1)
      with True "1.prems" have "s' = s1"
        by (subst (asm) martingaleLoop.simps) auto
      with Break True show ?thesis
        by (auto intro: martingaleIter_runs(2))
    next
      case (Raise e)
      with True "1.prems" show ?thesis
        by (subst (asm) martingaleLoop.simps) auto
    next
      case (Continue x)
      obtain a1 c1 s1 where x: "x = (a1, c1, s1)" by (cases x) auto
      from True "1.prems" Continue x
      have rec: "martingaleLoop rnd initial cfg lt lv start a1 c1 s1 = Inr s'"
        by (subst (asm) martingaleLoop.simps) auto
      have "runs initial strategy cfg s1 s'"
        using "1.IH" [OF True Continue] rec x by simp
      moreover have "runs initial strategy cfg s s1"
        using Continue x True by (auto intro: martingaleIter_runs(1))
      ultimately show ?thesis by (rule runs_trans)
    qed
  qed
qed

lemma repeatIter_runs:
  assumes "int (spinsConsumed s) < maxSpins cfg" and "v_bankroll s > 0"
  shows "repeatIter rnd initial cfg rt rv start ls lw s = Continue (a, ls', lw', s') \<Longrightarrow>
           runs initial strategy cfg s s'"
    and "repeatIter rnd initial cfg rt rv start ls lw s = Break s' \<Longrightarrow>
           runs initial strategy cfg s s'"
proof -
  let ?bs = "scaledBets cfg s"
  let ?r = "recordStep initial (generateSpin (rnd (spinsConsumed s))) ?bs (REPEAT rt) False s"
  have spin: "totalAmount ?bs \<le> v_bankroll s \<Longrightarrow> runs initial strategy cfg s (snd ?r)"
    using assms by (intro runs_spin1) (simp add: guardOk_def)
  show "repeatIter rnd initial cfg rt rv start ls lw s = Continue (a, ls', lw', s') \<Longrightarrow>
           runs initial strategy cfg s s'"
    using spin
    by (auto simp: repeatIter_def Let_def split: if_splits sum.splits)
  show "repeatIter rnd initial cfg rt rv start ls lw s = Break s' \<Longrightarrow>
           runs initial strategy cfg s s'"
    by (auto simp: repeatIter_def Let_def runs_refl split: if_splits sum.splits)
qed

lemma repeatLoop_runs:
  "repeatLoop rnd initial cfg rt rv start a ls lw s = Inr s' \<Longrightarrow>
   runs initial strategy cfg s s'"
proof (induction rnd initial cfg rt rv start a ls lw s rule: repeatLoop.induct)
  case (1 rnd initial cfg rt rv start a ls lw s)
  show ?case
  proof (cases "a \<and> int (spinsConsumed s) < maxSpins cfg \<and> v_bankroll s > 0")
    case False
    with "1.prems" show ?thesis
      by (subst (asm) repeatLoop.simps) (auto simp: runs_refl)
  next
    case True
    show ?thesis
    proof (cases "repeatIter rnd initial cfg rt rv start ls lw s")
      case (Break s1)
      with True "1.prems" have "s' = s1"
        by (subst (asm) repeatLoop.simps) auto
      with Break True show ?thesis
        by (auto intro: repeatIter_runs(2))
    next
      case (Raise e)
      with True "1.prems" show ?thesis
        by (subst (asm) repeatLoop.simps) auto
    next
      case (Continue x)
      obtain a1 ls1 lw1 s1 where x: "x = (a1, ls1, lw1, s1)" by (cases x) auto
      from True "1.prems" Continue x
      have rec: "repeatLoop rnd initial cfg rt rv start a1 ls1 lw1 s1 = Inr s'"
        by (subst (asm) repeatLoop.simps) auto
      have "runs initial strategy cfg s1 s'"
        using "1.IH" [OF True Continue] rec x by simp
      moreover have "runs initial strategy cfg s s1"
        using Continue x True by (auto intro: repeatIter_runs(1))
      ultimately show ?thesis by (rule runs_trans)
    qed
  qed
qed

lemma waitNode_runs: "runs initial strategy cfg s (waitNode rnd initial h r s)"
proof -
  define s1 where "s1 = (case nvalue (h (currentNode s)) of
                  None \<Rightarrow> s
                | Some v \<Rightarrow> if v \<noteq> 0 then waitSpins rnd initial (nat v) s else s)"
  have r1: "runs initial strategy cfg s s1"
    by (auto simp: s1_def runs_refl waitSpins_runs split: option.splits)
  have "sameLedger s1 (waitNode rnd initial h r s)"
    unfolding waitNode_def Let_def s1_def [symmetric]
    by (simp split: ProgressionType.splits)
  with r1 show ?thesis by (rule runs_move)
qed

lemma enterNodeSingle_runs:
  "runs initial strategy cfg s (enterNodeSingle rnd initial h r nx s)"
proof (cases nx)
  case None
  then show ?thesis
    by (simp add: enterNodeSingle_def runs_move1 toRoot_same)
next
  case (Some n)
  have l: "runs initial strategy cfg s (loadNode h n s)"
    by (rule runs_move1 [OF loadNode_same])
  show ?thesis
    using Some
    by (auto simp: enterNodeSingle_def Let_def
        intro: runs_trans [OF waitNode_runs l] runs_move [OF l nodeModifier_same])
qed

lemma enterNode_runs: "runs initial strategy cfg s (enterNode h r nx s)"
  by (rule runs_move1 [OF enterNode_same])

lemma totalAmount_Nil [simp]: "totalAmount [] = 0"
  by (simp add: totalAmount_def)

lemma singleSpin_runs:
  assumes "int (spinsConsumed s) < maxSpins cfg"
    and "v_bankroll s > stopLoss strategy"
    and "\<not> (takeProfit strategy > 0 \<and> v_bankroll s \<ge> takeProfit strategy)"
    and "v_bankroll s > 0"
  shows "singleSpin rnd initial h r cfg s = Continue s' \<Longrightarrow> runs initial strategy cfg s s'"
    and "singleSpin rnd initial h r cfg s = Break s' \<Longrightarrow> runs initial strategy cfg s s'"
proof -
  let ?bs = "scaledBets cfg s"
  have spin: "totalAmount ?bs \<le> v_bankroll s \<Longrightarrow>
     runs initial strategy cfg s
       (snd (recordStep initial res ?bs
          (if length ?bs > 0 then (if length (v_steps s) = 0 then START else BET) else NO_BET)
          False s))" for res
    using assms by (intro runs_spin1) (simp add: guardOk_def)
  show "singleSpin rnd initial h r cfg s = Continue s' \<Longrightarrow> runs initial strategy cfg s s'"
    using spin
    by (auto simp: singleSpin_def Let_def split: if_splits sum.splits
        intro: runs_trans [OF enterNodeSingle_runs])
  show "singleSpin rnd initial h r cfg s = Break s' \<Longrightarrow> runs initial strategy cfg s s'"
    by (auto simp: singleSpin_def Let_def runs_refl split: if_splits sum.splits)
qed

lemma martingaleNode_runs:
  "martingaleNode rnd initial h r cfg s = Continue s' \<Longrightarrow> runs initial strategy cfg s s'"
  "martingaleNode rnd initial h r cfg s = Break s' \<Longrightarrow> runs initial strategy cfg s s'"
  by (auto simp: martingaleNode_def Let_def split: sum.splits
      intro: runs_trans [OF enterNode_runs martingaleLoop_runs])

lemma repeatNode_runs:
  "repeatNode rnd initial h r cfg s = Continue s' \<Longrightarrow> runs initial strategy cfg s s'"
  "repeatNode rnd initial h r cfg s = Break s' \<Longrightarrow> runs initial strategy cfg s s'"
  by (auto simp: repeatNode_def Let_def split: sum.splits
      intro: runs_trans [OF enterNode_runs repeatLoop_runs])

lemma mainBody_runs:
  assumes "int (spinsConsumed s) < maxSpins cfg"
  shows "mainBody rnd initial h strategy cfg s = Continue s' \<Longrightarrow> runs initial strategy cfg s s'"
    and "mainBody rnd initial h strategy cfg s = Break s' \<Longrightarrow> runs initial strategy cfg s s'"
  using assms
  by (auto simp: mainBody_def runs_refl split: if_splits
      intro: martingaleNode_runs repeatNode_runs singleSpin_runs)

lemma mainLoop_runs_aux:
  assumes run: "mainLoop rnd initial h strategy cfg s = Some y"
  shows "\<forall>s'. y = Inr s' \<longrightarrow> runs initial strategy cfg s s'"
proof (rule mainLoop.raw_induct
    [where P = "\<lambda>rnd initial h strategy cfg s y.
                  \<forall>s'. y = Inr s' \<longrightarrow> runs initial strategy cfg s s'", OF _ run])
  fix f :: "(nat \<Rightarrow> nat) \<Rightarrow> int \<Rightarrow> store \<Rightarrow> StrategyConfig \<Rightarrow> SimConfig \<Rightarrow> run_state
              \<Rightarrow> (error + run_state) option"
    and rnd initial h strategy cfg s y
  assume IH: "\<And>rnd initial h strategy cfg s y. f rnd initial h strategy cfg s = Some y \<Longrightarrow>
                 \<forall>s'. y = Inr s' \<longrightarrow> runs initial strategy cfg s s'"
  assume eq: "(if int (spinsConsumed s) < maxSpins cfg
      then case mainBody rnd initial h strategy cfg s of
           Continue s1 \<Rightarrow> f rnd initial h strategy cfg s1
           | Break s1 \<Rightarrow> Some (Inr s1) | Raise e \<Rightarrow> Some (Inl e)
      else Some (Inr s)) = Some y"
  show "\<forall>s'. y = Inr s' \<longrightarrow> runs initial strategy cfg s s'"
  proof (cases "int (spinsConsumed s) < maxSpins cfg")
    case False
    with eq show ?thesis by (auto simp: runs_refl)
  next
    case True
    show ?thesis
    proof (cases "mainBody rnd initial h strategy cfg s")
      case (Continue s1)
      with eq True have "f rnd initial h strategy cfg s1 = Some y" by simp
      then have "\<forall>s'. y = Inr s' \<longrightarrow> runs initial strategy cfg s1 s'"
        by (rule IH)
      moreover have "runs initial strategy cfg s s1"
        using True Continue by (rule mainBody_runs(1))
      ultimately show ?thesis by (blast intro: runs_trans)
    next
      case (Break s1)
      with eq True have "y = Inr s1" by simp
      moreover have "runs initial strategy cfg s s1"
        using True Break by (rule mainBody_runs(2))
      ultimately show ?thesis by simp
    next
      case (Raise e)
      with eq True show ?thesis by auto
    qed
  qed
qed

lemma mainLoop_runs:
  "mainLoop rnd initial h strategy cfg s = Some (Inr s') \<Longrightarrow> runs initial strategy cfg s s'"
  using mainLoop_runs_aux by blast

lemma preSim_runs: "runs initial strategy cfg s (preSim rnd initial h r s)"
  by (auto simp: preSim_def Let_def runs_refl waitSpins_runs waitConditionLoop_runs)

lemma finalState_runs:
  "finalState rnd h initial strategy cfg = Some (Inr s') \<Longrightarrow>
   runs initial strategy cfg (initState initial h (rootNode strategy)) s'"
  unfolding finalState_def
  by (rule runs_trans [OF mainLoop_runs preSim_runs])

section \<open>Invariants of the ledger\<close>

lemma updateStats_fields [simp]:
  "v_bankroll (updateStats initial n s) = v_bankroll s"
  "v_steps (updateStats initial n s) = v_steps s"
  "spinsConsumed (updateStats initial n s) = spinsConsumed s"
  "currentNode (updateStats initial n s) = currentNode s"
  "currentBaseBets (updateStats initial n s) = currentBaseBets s"
  "currentMultiplier (updateStats initial n s) = currentMultiplier s"
  by (simp_all add: updateStats_def Let_def)

lemma recordStep_fst:
  "fst (recordStep initial res bs tag w s) = (w \<or> totalAmount bs \<le> v_bankroll s)"
  by (auto simp: recordStep_def Let_def)

lemma recordStep_fail:
  "\<not> fst (recordStep initial res bs tag w s) \<Longrightarrow>
   snd (recordStep initial res bs tag w s) = s\<lparr>spinsConsumed := Suc (spinsConsumed s)\<rparr>"
  by (auto simp: recordStep_def Let_def split: if_splits)

lemma recordStep_ok:
  assumes "fst (recordStep initial res bs tag w s)"
  shows "\<exists>e. v_steps (snd (recordStep initial res bs tag w s)) = v_steps s @ [e]
     \<and> bankroll e = v_bankroll (snd (recordStep initial res bs tag w s))
     \<and> bankroll e = v_bankroll s + net e
     \<and> spinIndex e = Suc (spinsConsumed s)
     \<and> actionType e = tag \<and> won e = (net e > 0)
     \<and> betTotal e = totalAmount bs \<and> step_bets e = bs
     \<and> payout e = (if w then 0 else fst (calculateDetailedOutcomes bs res))
     \<and> net e = payout e - betTotal e"
  using assms by (auto simp: recordStep_def Let_def split: if_splits)

lemma recordStep_control [simp]:
  "currentNode (snd (recordStep initial res bs tag w s)) = currentNode s"
  "currentBaseBets (snd (recordStep initial res bs tag w s)) = currentBaseBets s"
  "currentMultiplier (snd (recordStep initial res bs tag w s)) = currentMultiplier s"
  by (auto simp: recordStep_def Let_def)



lemma sameLedger_fields:
  "sameLedger s1 s2 \<Longrightarrow> v_steps s2 = v_steps s1 \<and> v_bankroll s2 = v_bankroll s1
     \<and> spinsConsumed s2 = spinsConsumed s1"
  unfolding sameLedger_def
  by (cases s1, cases s2) auto




lemma runSimulation_Inr:
  "runSimulation rnd h initial strategy cfg = Some (Inr r) \<Longrightarrow>
   \<exists>s. finalState rnd h initial strategy cfg = Some (Inr s) \<and> r = mkResult initial cfg s"
  by (cases "finalState rnd h initial strategy cfg")
     (auto simp: runSimulation_def map_sum_def split: sum.splits)



section \<open>The double arithmetic in the runner\<close>

text \<open>
  The ROI of a run that ends at a bankroll of 107, from 100: the quotient \<open>7 / 100\<close> is
  rounded up, and its product with 100 is the double next above 7.
\<close>

lemma roi_is_a_double:
  "roi (stats (mkResult 100 (table 1 1000) ((initState 100 loopStore 0)\<lparr>v_bankroll := 107\<rparr>)))
     = 7 + 1 / 2 ^ 50"
  by code_simp

text \<open>
  The scale-down of a single wager to the table maximum: 195 at a maximum of 100 becomes
  99, and 1160 at a maximum of 1000 becomes 999, the quotient of the maximum and the wager
  being rounded down.
\<close>

lemma scale_down_is_rounded:
  "map amount (scaledBets (table 1 100)
     ((initState 1000 loopStore 0)\<lparr>currentBaseBets := [straight17 195]\<rparr>)) = [99]
   \<and> map amount (scaledBets (table 1 1000)
     ((initState 5000 loopStore 0)\<lparr>currentBaseBets := [straight17 1160]\<rparr>)) = [999]"
  by code_simp

section \<open>Wait phases and runs without play\<close>

lemma waited_refl: "waited s s"
  by (simp add: waited_def)

lemma waited_trans: "waited s1 s2 \<Longrightarrow> waited s2 s3 \<Longrightarrow> waited s1 s3"
  unfolding waited_def
  by (elim exE conjE, rule_tac x = "ws @ wsa" in exI) simp

lemma recordStep_wait:
  "snd (recordStep initial res [] tag True s) =
     s\<lparr>spinsConsumed := Suc (spinsConsumed s),
       v_steps := v_steps s @
         [\<lparr>spinIndex = Suc (spinsConsumed s), result = res, step_bets = [], outcomes = [],
           betTotal = 0, payout = 0, net = 0, bankroll = v_bankroll s, won = False,
           actionType = tag\<rparr>]\<rparr>"
  by (simp add: recordStep_def Let_def)

lemma recordStep_waited:
  "isWaitTag tag \<Longrightarrow> waited s (snd (recordStep initial res [] tag True s))"
  by (simp add: recordStep_wait waited_def)

lemma waitSpins_waited: "waited s (waitSpins rnd initial k s)"
proof (induction k arbitrary: s)
  case 0
  show ?case by (simp add: waited_refl)
next
  case (Suc k)
  show ?case
    by simp (rule waited_trans [OF recordStep_waited Suc.IH], simp)
qed

lemma waitConditionLoop_waited:
  "waited s (waitConditionLoop rnd initial cond met safety s)"
proof (induction rnd initial cond met safety s rule: waitConditionLoop.induct)
  case (1 rnd initial cond conditionMet safety s)
  show ?case
  proof (cases "\<not> conditionMet \<and> safety < 200")
    case False
    then show ?thesis
      by (subst waitConditionLoop.simps) (auto simp: waited_refl)
  next
    case True
    have step: "waited s
          (snd (recordStep initial (generateSpin (rnd (spinsConsumed s))) []
                 (WAITING_FOR (toUpperCase cond)) True s))"
      by (rule recordStep_waited) simp
    from 1 [OF True refl refl refl refl] step True show ?thesis
      by (subst waitConditionLoop.simps) (auto simp: Let_def intro: waited_trans)
  qed
qed

lemma preSim_waited: "waited s (preSim rnd initial h r s)"
  by (auto simp: preSim_def Let_def waited_refl waitSpins_waited waitConditionLoop_waited)

lemma sameLedger_waited: "sameLedger s1 s2 \<Longrightarrow> waited s1 s2"
  unfolding sameLedger_def waited_def
  by (cases s1, cases s2) auto

lemma mainLoop_idle:
  "maxSpins cfg = 0 \<or> v_bankroll s \<le> stopLoss strategy \<Longrightarrow>
   mainLoop rnd initial h strategy cfg s = Some (Inr s)"
  by (subst mainLoop.simps) (auto simp: mainBody_def)

lemma preSim_idle:
  assumes "\<not> (ntype (h r) = wait_spins \<and> (\<exists>v>0. nvalue (h r) = Some v))"
    and "\<not> (ntype (h r) = wait_condition \<and> condition (h r) \<noteq> None \<and> condition (h r) \<noteq> Some [])"
  shows "preSim rnd initial h r s = s"
proof (cases "ntype (h r) = wait_spins \<and> nvalue (h r) \<noteq> None \<and> nvalue (h r) \<noteq> Some 0")
  case True
  then obtain y where y: "nvalue (h r) = Some y" by auto
  with assms(1) True have "\<not> y > 0" by auto
  with y True show ?thesis by (simp add: preSim_def)
next
  case False
  with assms(2) show ?thesis by (auto simp: preSim_def)
qed

text \<open>
  Claim C6, as stated, fails for a root that starts a wait phase: with \<open>maxSpins = 0\<close> a
  \<^verbatim>\<open>wait_spins\<close> root with value 2 still draws its two wait spins, and the ledger has two
  entries.
\<close>

theorem wait_root_spins_without_budget:
  "map_option (map_sum id (map actionType \<circ> steps))
     (runSimulation zeros waitRootStore 100 (limits 0 0) (table 0 1000))
   = Some (Inr [WAITING, WAITING])
   \<and> maxSpins (table 0 1000) = 0"
  by code_simp

text \<open>
  Claim C6, amended. With \<open>maxSpins = 0\<close>, or with a stop-loss at or above the initial
  bankroll, \<^verbatim>\<open>runSimulation\<close> returns; the final bankroll is the initial bankroll, the ROI is
  0, there are no wins and no losses, and the ledger holds only the entries of the wait
  phase before the main loop, each with net 0. When the root starts no such wait phase (it
  is not a \<^verbatim>\<open>wait_spins\<close> node with a positive value and not a \<^verbatim>\<open>wait_condition\<close> node with a
  non-empty condition), the ledger is empty and \<open>totalSpins\<close> is 0.
\<close>

theorem no_play_run:
  assumes "maxSpins cfg = 0 \<or> stopLoss strategy \<ge> initial"
  shows "\<exists>r. runSimulation rnd h initial strategy cfg = Some (Inr r)
     \<and> finalBankroll (stats r) = initial \<and> roi (stats r) = 0
     \<and> totalSpins (stats r) = length (steps r)
     \<and> wins (stats r) = 0 \<and> losses (stats r) = 0
     \<and> (\<forall>e \<in> set (steps r).
           net e = 0 \<and> (actionType e = WAITING \<or> (\<exists>c. actionType e = WAITING_FOR c)))
     \<and> (\<not> (ntype (h (rootNode strategy)) = wait_spins
              \<and> (\<exists>v>0. nvalue (h (rootNode strategy)) = Some v))
         \<and> \<not> (ntype (h (rootNode strategy)) = wait_condition
                \<and> condition (h (rootNode strategy)) \<noteq> None
                \<and> condition (h (rootNode strategy)) \<noteq> Some [])
         \<longrightarrow> steps r = [] \<and> totalSpins (stats r) = 0)"
proof -
  let ?i = "initState initial h (rootNode strategy)"
  let ?s = "preSim rnd initial h (rootNode strategy) ?i"
  have w: "waited ?i ?s" by (rule preSim_waited)
  then obtain ws where ws: "v_steps ?s = ws"
      "list_all (\<lambda>e. net e = 0 \<and> isWaitTag (actionType e)) ws"
      "v_bankroll ?s = initial" "v_wins ?s = 0" "v_losses ?s = 0"
    by (auto simp: waited_def initState_def)
  have "mainLoop rnd initial h strategy cfg ?s = Some (Inr ?s)"
    using assms ws(3) by (intro mainLoop_idle) auto
  then have run: "runSimulation rnd h initial strategy cfg = Some (Inr (mkResult initial cfg ?s))"
    by (simp add: runSimulation_def finalState_def)
  have tags: "\<forall>e \<in> set ws. net e = 0 \<and> (actionType e = WAITING \<or> (\<exists>c. actionType e = WAITING_FOR c))"
  proof
    fix e assume "e \<in> set ws"
    with ws(2) have "net e = 0" "isWaitTag (actionType e)" by (auto simp: list_all_iff)
    then show "net e = 0 \<and> (actionType e = WAITING \<or> (\<exists>c. actionType e = WAITING_FOR c))"
      by (cases "actionType e") auto
  qed
  have idle: "\<not> (ntype (h (rootNode strategy)) = wait_spins
              \<and> (\<exists>v>0. nvalue (h (rootNode strategy)) = Some v))
         \<and> \<not> (ntype (h (rootNode strategy)) = wait_condition
                \<and> condition (h (rootNode strategy)) \<noteq> None
                \<and> condition (h (rootNode strategy)) \<noteq> Some [])
         \<longrightarrow> ws = []"
    using preSim_idle [of h "rootNode strategy" rnd initial ?i] ws(1)
    by (auto simp: initState_def)
  show ?thesis
    using run ws(1,3,4,5) tags idle
    by (intro exI [of _ "mkResult initial cfg ?s"]) (simp add: mkResult_def)
qed

theorem no_play_run_witness:
  "(\<exists>r. runSimulation zeros loopStore 100 (limits 0 0) (table 0 1000) = Some (Inr r)
      \<and> finalBankroll (stats r) = 100 \<and> roi (stats r) = 0 \<and> steps r = []
      \<and> totalSpins (stats r) = 0)
   \<and> (\<exists>r. runSimulation zeros waitRootStore 100 (limits 100 0) (table 5 1000) = Some (Inr r)
      \<and> finalBankroll (stats r) = 100 \<and> roi (stats r) = 0 \<and> totalSpins (stats r) = 2
      \<and> steps r \<noteq> [] \<and> net (hd (steps r)) = 0 \<and> actionType (hd (steps r)) = WAITING)"
proof -
  have idle: "\<not> (ntype (loopStore (rootNode (limits 0 0))) = wait_spins
              \<and> (\<exists>v>0. nvalue (loopStore (rootNode (limits 0 0))) = Some v))
         \<and> \<not> (ntype (loopStore (rootNode (limits 0 0))) = wait_condition
                \<and> condition (loopStore (rootNode (limits 0 0))) \<noteq> None
                \<and> condition (loopStore (rootNode (limits 0 0))) \<noteq> Some [])"
    by (simp add: loopStore_def plainNode_def)
  have "maxSpins (table 0 1000) = 0 \<or> stopLoss (limits 0 0) \<ge> 100"
    by (simp add: table_def)
  from no_play_run [OF this, of zeros loopStore] idle
  have first: "\<exists>r. runSimulation zeros loopStore 100 (limits 0 0) (table 0 1000) = Some (Inr r)
      \<and> finalBankroll (stats r) = 100 \<and> roi (stats r) = 0 \<and> steps r = []
      \<and> totalSpins (stats r) = 0"
    by blast
  have "maxSpins (table 5 1000) = 0 \<or> stopLoss (limits 100 0) \<ge> 100"
    by (simp add: limits_def)
  from no_play_run [OF this, of zeros waitRootStore]
  obtain r where r: "runSimulation zeros waitRootStore 100 (limits 100 0) (table 5 1000) = Some (Inr r)"
    "finalBankroll (stats r) = 100" "roi (stats r) = 0" "totalSpins (stats r) = length (steps r)"
    "\<forall>e \<in> set (steps r).
           net e = 0 \<and> (actionType e = WAITING \<or> (\<exists>c. actionType e = WAITING_FOR c))"
    by blast
  have "map_option (map_sum id (map actionType \<circ> steps))
          (runSimulation zeros waitRootStore 100 (limits 100 0) (table 5 1000))
        = Some (Inr [WAITING, WAITING])"
    by code_simp
  with r(1) have tags: "map actionType (steps r) = [WAITING, WAITING]" by simp
  then have len: "length (steps r) = 2" by (metis length_map length_Cons list.size(3) numeral_2_eq_2)
  from tags have ne: "steps r \<noteq> []" and hd: "actionType (hd (steps r)) = WAITING"
    by (cases "steps r"; simp)+
  from ne r(5) have "net (hd (steps r)) = 0" by simp
  with r len ne hd have "\<exists>r. runSimulation zeros waitRootStore 100 (limits 100 0) (table 5 1000) = Some (Inr r)
      \<and> finalBankroll (stats r) = 100 \<and> roi (stats r) = 0 \<and> totalSpins (stats r) = 2
      \<and> steps r \<noteq> [] \<and> net (hd (steps r)) = 0 \<and> actionType (hd (steps r)) = WAITING"
    by (intro exI [of _ r]) simp
  with first show ?thesis by blast
qed

section \<open>Playback statistics and interior wait nodes\<close>

text \<open>
  Claim C5 at a failing input. A root that waits 2 spins and then bets is run with a budget
  of 3 spins; the playback statistics shown for the first 2 ledger entries count 2 losses
  and a loss streak of 2. The engine, halted after the same 2 entries (a budget of 2 spins),
  counts no loss and no streak: it exempts wait entries, and counts an entry with net 0 as
  neither win nor loss, where the playback fold counts every entry that is not won as a
  loss.
\<close>

theorem playback_counts_waits_as_losses:
  "map_option (map_sum id (\<lambda>r. (map actionType (steps r), losses (displayedStats r 2),
        longestLossStreak (displayedStats r 2))))
     (runSimulation zeros waitRootStore 100 (limits 0 0) (table 3 1000))
   = Some (Inr ([WAITING, WAITING, BET], 2, 2))
   \<and> map_option (map_sum id (\<lambda>r. (map actionType (steps r), losses (stats r),
        longestLossStreak (stats r))))
     (runSimulation zeros waitRootStore 100 (limits 0 0) (table 2 1000))
   = Some (Inr ([WAITING, WAITING], 0, 0))
   \<and> map_option (map_sum id (take 2 \<circ> steps))
        (runSimulation zeros waitRootStore 100 (limits 0 0) (table 3 1000))
     = map_option (map_sum id steps)
        (runSimulation zeros waitRootStore 100 (limits 0 0) (table 2 1000))"
  by code_simp

text \<open>
  Claim C8 at a failing input. The loss child of the root is a \<^verbatim>\<open>wait_condition\<close> node
  waiting for red. After the first lost spin the cursor is on that node, and the next
  spins are ordinary bets of 10 tagged BET: no wait spin is drawn, although no red has
  appeared. The same node as the root of a tree does wait (two zero-wager entries tagged
  WAITING_FOR_RED, the second on a red outcome) before it bets.
\<close>

theorem interior_wait_condition_bets:
  "map_option (map_sum id (map (\<lambda>e. (actionType e, betTotal e)) \<circ> steps))
     (runSimulation zeros waitChildStore 100 (limits 0 0) (table 3 1000))
   = Some (Inr [(START, 10), (BET, 10), (BET, 10)])
   \<and> ntype (waitChildStore 1) = wait_condition \<and> loss (waitChildStore 0) = Some 1
   \<and> map_option (map_sum id (map (\<lambda>e. (actionType e, betTotal e)) \<circ> steps))
     (runSimulation redAtSecond waitConditionRootStore 100 (limits 0 0) (table 3 1000))
   = Some (Inr [(WAITING_FOR ''RED'', 0), (WAITING_FOR ''RED'', 0), (BET, 10)])"
  by code_simp

section \<open>A single spin without bets\<close>

lemma waitNode_waited: "waited s (waitNode rnd initial h r s)"
proof -
  define s1 where "s1 = (case nvalue (h (currentNode s)) of
                  None \<Rightarrow> s
                | Some v \<Rightarrow> if v \<noteq> 0 then waitSpins rnd initial (nat v) s else s)"
  have r1: "waited s s1"
    by (auto simp: s1_def waited_refl waitSpins_waited split: option.splits)
  have "sameLedger s1 (waitNode rnd initial h r s)"
    unfolding waitNode_def Let_def s1_def [symmetric]
    by (simp split: ProgressionType.splits)
  then have "waited s1 (waitNode rnd initial h r s)" by (rule sameLedger_waited)
  with r1 show ?thesis by (rule waited_trans)
qed

lemma loadNode_cursor [simp]: "currentNode (loadNode h n s) = n"
  by (simp add: loadNode_def Let_def)

lemma enterNodeSingle_waited: "waited s (enterNodeSingle rnd initial h r nx s)"
proof (cases nx)
  case None
  then show ?thesis
    by (simp add: enterNodeSingle_def sameLedger_waited toRoot_same)
next
  case (Some n)
  have l: "waited s (loadNode h n s)"
    by (rule sameLedger_waited [OF loadNode_same])
  show ?thesis
    using Some
    by (auto simp: enterNodeSingle_def Let_def
        intro: waited_trans [OF l waitNode_waited]
               waited_trans [OF l sameLedger_waited [OF nodeModifier_same]])
qed

lemma enterNodeSingle_same:
  "\<forall>n. nx = Some n \<longrightarrow> ntype (h n) \<noteq> wait_spins \<Longrightarrow>
   sameLedger s (enterNodeSingle rnd initial h r nx s)"
  by (cases nx)
     (auto simp: enterNodeSingle_def Let_def toRoot_same
       intro: sameLedger_trans [OF loadNode_same nodeModifier_same])

lemma scaledBets_Nil: "currentBaseBets s = [] \<Longrightarrow> scaledBets cfg s = []"
  by (simp add: scaledBets_def scaleBets_def capBets_def Let_def)

lemma recordStep_no_bet:
  assumes "0 \<le> v_bankroll s"
  shows "v_steps (snd (recordStep initial res [] tag False s)) =
           v_steps s @
             [\<lparr>spinIndex = Suc (spinsConsumed s), result = res, step_bets = [], outcomes = [],
               betTotal = 0, payout = 0, net = 0, bankroll = v_bankroll s, won = False,
               actionType = tag\<rparr>]"
    and "v_bankroll (snd (recordStep initial res [] tag False s)) = v_bankroll s"
  using assms
  by (simp_all add: recordStep_def Let_def calculateDetailedOutcomes_def)

lemma lastStepWon_snoc: "v_steps s = xs @ [e] \<Longrightarrow> lastStepWon s = Inr (won e)"
  by (cases xs) (simp_all add: lastStepWon_def)

text \<open>
  Claim C10. When the active base wager list is empty and a single-spin node executes (the
  spin budget is not exhausted, the bankroll is above the stop-loss, below a positive
  take-profit, and above 0), the pass of the main loop raises no error and does not stop
  the run: it draws a spin and appends one ledger entry with no bets, bet total 0, payout 0,
  net 0, \<open>won = false\<close> and the tag NO_BET, and the bankroll is unchanged; the loop goes on
  from the state after the pass. The only further entries of the pass are the zero-net wait
  entries of a \<^verbatim>\<open>wait_spins\<close> loss child, if the node has one.
\<close>

theorem no_bet_spin:
  assumes "currentBaseBets s = []"
    and "ntype (h (currentNode s)) \<noteq> martingale"
    and "ntype (h (currentNode s)) \<noteq> repeat_until"
    and "int (spinsConsumed s) < maxSpins cfg"
    and "v_bankroll s > stopLoss strategy"
    and "\<not> (takeProfit strategy > 0 \<and> v_bankroll s \<ge> takeProfit strategy)"
    and "v_bankroll s > 0"
  shows "\<exists>s' ws. mainBody rnd initial h strategy cfg s = Continue s'
     \<and> mainLoop rnd initial h strategy cfg s = mainLoop rnd initial h strategy cfg s'
     \<and> v_steps s' = v_steps s @
         [\<lparr>spinIndex = Suc (spinsConsumed s), result = generateSpin (rnd (spinsConsumed s)),
           step_bets = [], outcomes = [], betTotal = 0, payout = 0, net = 0,
           bankroll = v_bankroll s, won = False, actionType = NO_BET\<rparr>] @ ws
     \<and> (\<forall>e \<in> set ws. net e = 0
            \<and> (actionType e = WAITING \<or> (\<exists>c. actionType e = WAITING_FOR c)))
     \<and> ((\<forall>n. loss (h (currentNode s)) = Some n \<longrightarrow> ntype (h n) \<noteq> wait_spins) \<longrightarrow> ws = [])
     \<and> v_bankroll s' = v_bankroll s
     \<and> spinsConsumed s' = Suc (spinsConsumed s) + length ws"
proof -
  let ?res = "generateSpin (rnd (spinsConsumed s))"
  let ?e = "\<lparr>spinIndex = Suc (spinsConsumed s), result = ?res,
           step_bets = [], outcomes = [], betTotal = 0, payout = 0, net = 0,
           bankroll = v_bankroll s, won = False, actionType = NO_BET\<rparr>"
  let ?s1 = "snd (recordStep initial ?res [] NO_BET False s)"
  let ?nx = "loss (h (currentNode s))"
  let ?s' = "enterNodeSingle rnd initial h (rootNode strategy) ?nx ?s1"
  from assms(7) have nonneg: "0 \<le> v_bankroll s" by simp
  note rec = recordStep_no_bet [OF nonneg, of initial ?res NO_BET]
  have won: "lastStepWon ?s1 = Inr False"
    using lastStepWon_snoc [OF rec(1)] by simp
  have single: "singleSpin rnd initial h (rootNode strategy) cfg s = Continue ?s'"
    using assms(7) won
    by (simp add: singleSpin_def Let_def scaledBets_Nil [OF assms(1)])
  have body: "mainBody rnd initial h strategy cfg s = Continue ?s'"
    using assms single by (simp add: mainBody_def)
  have loop: "mainLoop rnd initial h strategy cfg s = mainLoop rnd initial h strategy cfg ?s'"
    using assms(4) body by (subst mainLoop.simps) simp
  from enterNodeSingle_waited [of ?s1 rnd initial h "rootNode strategy" ?nx]
  obtain ws where ws: "v_steps ?s' = v_steps ?s1 @ ws"
      "list_all (\<lambda>e. net e = 0 \<and> isWaitTag (actionType e)) ws"
      "v_bankroll ?s' = v_bankroll ?s1"
      "spinsConsumed ?s' = spinsConsumed ?s1 + length ws"
    unfolding waited_def by blast
  have tags: "\<forall>e \<in> set ws. net e = 0
            \<and> (actionType e = WAITING \<or> (\<exists>c. actionType e = WAITING_FOR c))"
  proof
    fix e assume "e \<in> set ws"
    with ws(2) have "net e = 0" "isWaitTag (actionType e)" by (auto simp: list_all_iff)
    then show "net e = 0 \<and> (actionType e = WAITING \<or> (\<exists>c. actionType e = WAITING_FOR c))"
      by (cases "actionType e") auto
  qed
  have none: "(\<forall>n. ?nx = Some n \<longrightarrow> ntype (h n) \<noteq> wait_spins) \<longrightarrow> ws = []"
  proof
    assume "\<forall>n. ?nx = Some n \<longrightarrow> ntype (h n) \<noteq> wait_spins"
    from enterNodeSingle_same [OF this] have "sameLedger ?s1 ?s'" .
    from sameLedger_fields [OF this] ws(1) show "ws = []" by simp
  qed
  show ?thesis
    using body loop ws(1,3,4) rec tags none
    by (intro exI [of _ ?s'] exI [of _ ws]) simp
qed

text \<open>
  The pass at a root without bets and without children, from the initial state with a
  bankroll of 100.
\<close>

theorem no_bet_spin_witness:
  "(\<exists>s'. mainBody zeros 100 noBetStore (limits 0 0) (table 3 1000) (initState 100 noBetStore 0)
           = Continue s'
      \<and> v_steps s' =
          [\<lparr>spinIndex = 1, result = \<lparr>number = Num 0, color = ''green''\<rparr>,
            step_bets = [], outcomes = [], betTotal = 0, payout = 0, net = 0,
            bankroll = 100, won = False, actionType = NO_BET\<rparr>]
      \<and> v_bankroll s' = 100 \<and> spinsConsumed s' = 1)
   \<and> (\<exists>s' w. mainBody zeros 100 noBetWaitStore (limits 0 0) (table 3 1000)
                (initState 100 noBetWaitStore 0) = Continue s'
      \<and> v_steps s' =
          [\<lparr>spinIndex = 1, result = \<lparr>number = Num 0, color = ''green''\<rparr>,
            step_bets = [], outcomes = [], betTotal = 0, payout = 0, net = 0,
            bankroll = 100, won = False, actionType = NO_BET\<rparr>, w]
      \<and> net w = 0 \<and> v_bankroll s' = 100 \<and> spinsConsumed s' = 2)"
proof -
  let ?s = "initState 100 noBetStore 0"
  have st: "currentBaseBets ?s = []" "spinsConsumed ?s = 0"
    "v_bankroll ?s = 100" "v_steps ?s = []" "currentNode ?s = 0"
    by (simp_all add: initState_def rootBets_def noBetStore_def plainNode_def)
  have nd: "ntype (noBetStore 0) = custom_bet" "loss (noBetStore 0) = None"
    by (simp_all add: noBetStore_def plainNode_def)
  have sp: "generateSpin (zeros 0) = \<lparr>number = Num 0, color = ''green''\<rparr>"
    by (simp add: generateSpin_def zeros_def NUMBER_COLORS_def)
  from no_bet_spin [of ?s noBetStore "table 3 1000" "limits 0 0" zeros 100]
  have first: "\<exists>s'. mainBody zeros 100 noBetStore (limits 0 0) (table 3 1000) ?s = Continue s'
      \<and> v_steps s' =
          [\<lparr>spinIndex = 1, result = \<lparr>number = Num 0, color = ''green''\<rparr>,
            step_bets = [], outcomes = [], betTotal = 0, payout = 0, net = 0,
            bankroll = 100, won = False, actionType = NO_BET\<rparr>]
      \<and> v_bankroll s' = 100 \<and> spinsConsumed s' = 1"
    by (simp add: st nd sp table_def limits_def) blast
  let ?t = "initState 100 noBetWaitStore 0"
  have st2: "currentBaseBets ?t = []" "spinsConsumed ?t = 0"
    "v_bankroll ?t = 100" "v_steps ?t = []" "currentNode ?t = 0"
    by (simp_all add: initState_def rootBets_def noBetWaitStore_def plainNode_def)
  have nd2: "ntype (noBetWaitStore 0) = custom_bet"
    by (simp add: noBetWaitStore_def plainNode_def)
  have val: "(case mainBody zeros 100 noBetWaitStore (limits 0 0) (table 3 1000) ?t of
                Continue s' \<Rightarrow> length (v_steps s') | _ \<Rightarrow> 0) = 2"
    by code_simp
  from no_bet_spin [of ?t noBetWaitStore "table 3 1000" "limits 0 0" zeros 100]
  obtain s' ws where s': "mainBody zeros 100 noBetWaitStore (limits 0 0) (table 3 1000) ?t = Continue s'"
    "v_steps s' =
          [\<lparr>spinIndex = 1, result = \<lparr>number = Num 0, color = ''green''\<rparr>,
            step_bets = [], outcomes = [], betTotal = 0, payout = 0, net = 0,
            bankroll = 100, won = False, actionType = NO_BET\<rparr>] @ ws"
    "\<forall>e \<in> set ws. net e = 0
            \<and> (actionType e = WAITING \<or> (\<exists>c. actionType e = WAITING_FOR c))"
    "v_bankroll s' = 100" "spinsConsumed s' = Suc (length ws)"
    by (simp add: st2 nd2 sp table_def limits_def) blast
  from val s'(1,2) have "length ws = 1" by simp
  then obtain w where w: "ws = [w]" by (cases ws) auto
  with s' have "mainBody zeros 100 noBetWaitStore (limits 0 0) (table 3 1000) ?t = Continue s'
      \<and> v_steps s' =
          [\<lparr>spinIndex = 1, result = \<lparr>number = Num 0, color = ''green''\<rparr>,
            step_bets = [], outcomes = [], betTotal = 0, payout = 0, net = 0,
            bankroll = 100, won = False, actionType = NO_BET\<rparr>, w]
      \<and> net w = 0 \<and> v_bankroll s' = 100 \<and> spinsConsumed s' = 2"
    by simp
  with first show ?thesis by blast
qed

text \<open>
  The whole run of that root with a budget of 3 spins: three NO_BET entries, the bankroll
  stays at 100.
\<close>

theorem no_bet_run_example:
  "map_option (map_sum id (map (\<lambda>e. (actionType e, betTotal e, payout e, net e, won e, bankroll e)) \<circ> steps))
     (runSimulation zeros noBetStore 100 (limits 0 0) (table 3 1000))
   = Some (Inr [(NO_BET, 0, 0, 0, False, 100), (NO_BET, 0, 0, 0, False, 100),
                (NO_BET, 0, 0, 0, False, 100)])"
  by code_simp

section \<open>Termination and the conditions of halting\<close>

lemma runs_length:
  "runs initial strategy cfg s s' \<Longrightarrow> length (v_steps s) = spinsConsumed s \<Longrightarrow>
   length (v_steps s') = spinsConsumed s'"
proof (induction rule: runs.induct)
  case (runs_refl s)
  then show ?case .
next
  case (runs_spin s s1 tag w bs res)
  from runs_spin.hyps(2) have "fst (recordStep initial res bs tag w s1)"
    by (cases tag) (auto simp: guardOk_def recordStep_fst)
  from recordStep_ok [OF this] runs_spin show ?case by auto
next
  case (runs_move s s1 s2)
  with sameLedger_fields [OF runs_move.hyps(2)] show ?case by simp
qed

lemma singleSpin_progress:
  "(singleSpin rnd initial h r cfg s = Break s
      \<and> totalAmount (scaledBets cfg s) > v_bankroll s)
   \<or> (\<exists>s'. singleSpin rnd initial h r cfg s = Continue s'
          \<and> spinsConsumed s' > spinsConsumed s)"
proof (cases "totalAmount (scaledBets cfg s) > v_bankroll s")
  case True
  then show ?thesis by (simp add: singleSpin_def Let_def)
next
  case False
  let ?tag = "if length (scaledBets cfg s) > 0
              then (if length (v_steps s) = 0 then START else BET) else NO_BET"
  let ?r = "recordStep initial (generateSpin (rnd (spinsConsumed s))) (scaledBets cfg s)
              ?tag False s"
  from False have "fst ?r" by (simp add: recordStep_fst)
  from recordStep_ok [OF this] obtain e where "v_steps (snd ?r) = v_steps s @ [e]" by blast
  from lastStepWon_snoc [OF this] have won: "lastStepWon (snd ?r) = Inr (won e)" .
  let ?s' = "enterNodeSingle rnd initial h r
               (if won e then win (h (currentNode s)) else loss (h (currentNode s))) (snd ?r)"
  have "singleSpin rnd initial h r cfg s = Continue ?s'"
    using False won by (simp add: singleSpin_def Let_def)
  moreover have "spinsConsumed ?s' > spinsConsumed s"
    using enterNodeSingle_waited [of "snd ?r" rnd initial h r
        "if won e then win (h (currentNode s)) else loss (h (currentNode s))"]
    by (auto simp: waited_def)
  ultimately show ?thesis by blast
qed

lemma mainLoop_terminates:
  assumes plain: "\<forall>n. ntype (h n) \<noteq> martingale \<and> ntype (h n) \<noteq> repeat_until"
  shows "\<exists>s'. mainLoop rnd initial h strategy cfg s = Some (Inr s') \<and> halted strategy cfg s'"
proof (induction "nat (maxSpins cfg) - spinsConsumed s" arbitrary: s rule: less_induct)
  case less
  show ?case
  proof (cases "int (spinsConsumed s) < maxSpins cfg")
    case False
    then have "mainLoop rnd initial h strategy cfg s = Some (Inr s)"
      by (subst mainLoop.simps) simp
    with False show ?thesis by (auto simp: halted_def)
  next
    case True
    show ?thesis
    proof (cases "v_bankroll s \<le> stopLoss strategy
        \<or> (takeProfit strategy > 0 \<and> v_bankroll s \<ge> takeProfit strategy)
        \<or> v_bankroll s \<le> 0")
      case stop: True
      then have "mainBody rnd initial h strategy cfg s = Break s"
        by (auto simp: mainBody_def)
      with True have "mainLoop rnd initial h strategy cfg s = Some (Inr s)"
        by (subst mainLoop.simps) simp
      with stop show ?thesis by (auto simp: halted_def)
    next
      case go: False
      with plain have body: "mainBody rnd initial h strategy cfg s =
          singleSpin rnd initial h (rootNode strategy) cfg s"
        by (auto simp: mainBody_def)
      from singleSpin_progress [of rnd initial h "rootNode strategy" cfg s]
      show ?thesis
      proof
        assume "singleSpin rnd initial h (rootNode strategy) cfg s = Break s
                  \<and> totalAmount (scaledBets cfg s) > v_bankroll s"
        with body True have "mainLoop rnd initial h strategy cfg s = Some (Inr s)"
          by (subst mainLoop.simps) simp
        with \<open>_ \<and> totalAmount (scaledBets cfg s) > v_bankroll s\<close> show ?thesis
          by (auto simp: halted_def)
      next
        assume "\<exists>s'. singleSpin rnd initial h (rootNode strategy) cfg s = Continue s'
                  \<and> spinsConsumed s' > spinsConsumed s"
        then obtain s1 where s1: "singleSpin rnd initial h (rootNode strategy) cfg s = Continue s1"
          "spinsConsumed s1 > spinsConsumed s" by blast
        from s1(2) True have "nat (maxSpins cfg) - spinsConsumed s1
                                < nat (maxSpins cfg) - spinsConsumed s" by linarith
        from less [OF this] obtain s' where
          "mainLoop rnd initial h strategy cfg s1 = Some (Inr s')" "halted strategy cfg s'"
          by blast
        moreover from body s1(1) True have "mainLoop rnd initial h strategy cfg s =
            mainLoop rnd initial h strategy cfg s1"
          by (subst mainLoop.simps) simp
        ultimately show ?thesis by auto
      qed
    qed
  qed
qed

text \<open>
  A run can end with none of the conditions of the main loop reached. A root that bets 10
  and whose win child is the root itself, started with a bankroll of 25 and a budget of 5
  spins, halts after 2 lost spins with a bankroll of 5: above the stop-loss of 0, above 0,
  no take-profit set and 3 spins of the budget left. The single-spin path leaves the main
  loop because the next bet of 10 cannot be afforded.
\<close>

theorem selfloop_halts_on_unaffordable_bet:
  "map_option (map_sum id (\<lambda>r. (finalBankroll (stats r), totalSpins (stats r))))
     (runSimulation zeros loopStore 25 (limits 0 0) (table 5 1000)) = Some (Inr (5, 2))
   \<and> win (loopStore (rootNode (limits 0 0))) = Some (rootNode (limits 0 0))
   \<and> stopLoss (limits 0 0) = 0 \<and> takeProfit (limits 0 0) = 0
   \<and> maxSpins (table 5 1000) = 5"
  by code_simp

text \<open>
  A pass of the main loop that leaves the state as it was, with the spin budget not
  exhausted, is repeated for ever.
\<close>

lemma fixed_pass_diverges:
  assumes body: "mainBody rnd initial h strategy cfg s = Continue s"
    and budget: "int (spinsConsumed s) < maxSpins cfg"
  shows "mainLoop rnd initial h strategy cfg s = None"
proof (rule ccontr)
  assume "mainLoop rnd initial h strategy cfg s \<noteq> None"
  then obtain y where run: "mainLoop rnd initial h strategy cfg s = Some y" by auto
  have "\<not> (rnd = rnd \<and> initial = initial \<and> h = h \<and> strategy = strategy \<and> cfg = cfg \<and> s = s)"
  proof (rule mainLoop.raw_induct
      [where P = "\<lambda>rnd' initial' h' strategy' cfg' s' y.
                    \<not> (rnd' = rnd \<and> initial' = initial \<and> h' = h \<and> strategy' = strategy
                       \<and> cfg' = cfg \<and> s' = s)", OF _ run])
    fix f :: "(nat \<Rightarrow> nat) \<Rightarrow> int \<Rightarrow> store \<Rightarrow> StrategyConfig \<Rightarrow> SimConfig \<Rightarrow> run_state
                \<Rightarrow> (error + run_state) option"
      and rnd' initial' h' strategy' cfg' s' y'
    assume IH: "\<And>rnd' initial' h' strategy' cfg' s' y. f rnd' initial' h' strategy' cfg' s' = Some y \<Longrightarrow>
                 \<not> (rnd' = rnd \<and> initial' = initial \<and> h' = h \<and> strategy' = strategy
                       \<and> cfg' = cfg \<and> s' = s)"
    assume eq: "(if int (spinsConsumed s') < maxSpins cfg'
        then case mainBody rnd' initial' h' strategy' cfg' s' of
             Continue s1 \<Rightarrow> f rnd' initial' h' strategy' cfg' s1
             | Break s1 \<Rightarrow> Some (Inr s1) | Raise e \<Rightarrow> Some (Inl e)
        else Some (Inr s')) = Some y'"
    show "\<not> (rnd' = rnd \<and> initial' = initial \<and> h' = h \<and> strategy' = strategy
                       \<and> cfg' = cfg \<and> s' = s)"
    proof
      assume same: "rnd' = rnd \<and> initial' = initial \<and> h' = h \<and> strategy' = strategy
                       \<and> cfg' = cfg \<and> s' = s"
      with eq body budget have "f rnd initial h strategy cfg s = Some y'" by simp
      from IH [OF this] show False by simp
    qed
  qed
  then show False by simp
qed

text \<open>
  Claim C3 at a failing input. The root is a martingale node that bets 10 on 17 and has
  itself as win child; the stop-loss is 0, no take-profit is set, the budget is 6 spins,
  the table maximum 1000, the wheel stops on 0 at every spin. From a bankroll of 35 the
  first visit loses 10 and 20 and leaves the inner loop at a bankroll of 5, the bet of 40
  being above the bankroll; the cursor returns to the root. The next visit leaves the inner
  loop before any spin, the bet of 10 being above the bankroll; the sequence counts as won
  (the bankroll is what it was at the start of the visit), the win child is the root, and
  the pass ends in the state in which it began, with 2 of the 6 spins consumed. No halt
  condition is ever reached and \<^verbatim>\<open>runSimulation\<close> does not return (\<open>None\<close>). The same
  happens from the first pass on, at a bankroll of 100, when the bet of 10 is above a table
  maximum of 5.
\<close>

theorem martingale_selfloop_never_returns:
  "runSimulation zeros martingaleStore 35 (limits 0 0) (table 6 1000) = None
   \<and> (\<exists>s. mainBody zeros 35 martingaleStore (limits 0 0) (table 6 1000)
              (initState 35 martingaleStore (rootNode (limits 0 0))) = Continue s
          \<and> spinsConsumed s = 2 \<and> v_bankroll s = 5
          \<and> mainBody zeros 35 martingaleStore (limits 0 0) (table 6 1000) s = Continue s)
   \<and> runSimulation zeros martingaleStore 100 (limits 0 0) (table 5 5) = None
   \<and> win (martingaleStore (rootNode (limits 0 0))) = Some (rootNode (limits 0 0))
   \<and> stopLoss (limits 0 0) = 0 \<and> takeProfit (limits 0 0) = 0
   \<and> maxSpins (table 6 1000) = 6 \<and> tableMax (table 6 1000) = 1000
   \<and> maxSpins (table 5 5) = 5 \<and> tableMax (table 5 5) = 5"
proof -
  let ?s0 = "initState 35 martingaleStore 0"
  have root: "rootNode (limits 0 0) = 0" by (simp add: limits_def)
  have pre0: "preSim zeros 35 martingaleStore 0 ?s0 = ?s0"
    by (simp add: preSim_def martingaleStore_def plainNode_def)
  have "case mainBody zeros 35 martingaleStore (limits 0 0) (table 6 1000) ?s0 of
          Continue s \<Rightarrow> spinsConsumed s = 2 \<and> v_bankroll s = 5
             \<and> mainBody zeros 35 martingaleStore (limits 0 0) (table 6 1000) s = Continue s
        | _ \<Rightarrow> False"
    by code_simp
  then obtain s1 where s1:
    "mainBody zeros 35 martingaleStore (limits 0 0) (table 6 1000) ?s0 = Continue s1"
    "spinsConsumed s1 = 2" "v_bankroll s1 = 5"
    "mainBody zeros 35 martingaleStore (limits 0 0) (table 6 1000) s1 = Continue s1"
    by (cases "mainBody zeros 35 martingaleStore (limits 0 0) (table 6 1000) ?s0") auto
  have "int (spinsConsumed s1) < maxSpins (table 6 1000)"
    by (simp add: s1(2) table_def)
  from fixed_pass_diverges [OF s1(4) this]
  have stuck: "mainLoop zeros 35 martingaleStore (limits 0 0) (table 6 1000) s1 = None" .
  have budget0: "int (spinsConsumed ?s0) < maxSpins (table 6 1000)"
    by (simp add: initState_def table_def)
  have "mainLoop zeros 35 martingaleStore (limits 0 0) (table 6 1000) ?s0 =
          mainLoop zeros 35 martingaleStore (limits 0 0) (table 6 1000) s1"
    using budget0 s1(1) by (subst mainLoop.simps) simp
  with stuck pre0 have first: "runSimulation zeros martingaleStore 35 (limits 0 0) (table 6 1000) = None"
    by (simp add: runSimulation_def finalState_def root)
  have pass: "\<exists>s. mainBody zeros 35 martingaleStore (limits 0 0) (table 6 1000)
              (initState 35 martingaleStore (rootNode (limits 0 0))) = Continue s
          \<and> spinsConsumed s = 2 \<and> v_bankroll s = 5
          \<and> mainBody zeros 35 martingaleStore (limits 0 0) (table 6 1000) s = Continue s"
    using s1 by (intro exI [of _ s1]) (simp add: root)
  let ?s = "initState 100 martingaleStore 0"
  have pre: "preSim zeros 100 martingaleStore 0 ?s = ?s"
    by (simp add: preSim_def martingaleStore_def plainNode_def)
  have body: "mainBody zeros 100 martingaleStore (limits 0 0) (table 5 5) ?s = Continue ?s"
    by code_simp
  have "int (spinsConsumed ?s) < maxSpins (table 5 5)"
    by (simp add: initState_def table_def)
  from fixed_pass_diverges [OF body this] pre
  have second: "runSimulation zeros martingaleStore 100 (limits 0 0) (table 5 5) = None"
    by (simp add: runSimulation_def finalState_def root)
  show ?thesis
    by (intro conjI first pass second) (simp_all add: limits_def table_def martingaleStore_def plainNode_def)
qed

section \<open>The martingale visit with a spin limit\<close>

lemma martingaleProgress_spin_count:
  "fst (martingaleProgress M_spin_count lv w c p s) = (c < lv)"
  "currentMultiplier (snd (martingaleProgress M_spin_count lv w c p s)) =
     (if lv \<le> c then currentMultiplier s else if w then currentMultiplier s
      else 2 * currentMultiplier s)"
  by (auto simp: martingaleProgress_def)

lemma martingaleIter_spin_count:
  assumes "martingaleIter rnd initial cfg M_spin_count lv start c s = R"
  shows "R = Break s
     \<or> (\<exists>e s1. v_steps s1 = v_steps s @ [e] \<and> actionType e = MARTINGALE_x (currentMultiplier s)
          \<and> currentMultiplier s1 =
               (if lv \<le> c + 1 then currentMultiplier s
                else if won e then currentMultiplier s else 2 * currentMultiplier s)
          \<and> currentBaseBets s1 = currentBaseBets s \<and> currentNode s1 = currentNode s
          \<and> (R = Break s1 \<or> R = Continue (c + 1 < lv, c + 1, s1)))"
proof -
  let ?bs = "scaleBets (currentMultiplier s) (currentBaseBets s)"
  let ?r = "recordStep initial (generateSpin (rnd (spinsConsumed s))) ?bs
              (MARTINGALE_x (currentMultiplier s)) False s"
  show ?thesis
  proof (cases "totalAmount ?bs > tableMax cfg \<or> totalAmount ?bs > v_bankroll s")
    case True
    with assms show ?thesis by (auto simp: martingaleIter_def Let_def)
  next
    case False
    then have ok: "fst ?r" by (simp add: recordStep_fst)
    from recordStep_ok [OF ok] obtain e where e: "v_steps (snd ?r) = v_steps s @ [e]"
      "actionType e = MARTINGALE_x (currentMultiplier s)" by blast
    from lastStepWon_snoc [OF e(1)] have won: "lastStepWon (snd ?r) = Inr (won e)" .
    let ?p = "martingaleProgress M_spin_count lv (won e) (c + 1)
                (v_bankroll (snd ?r) - start) (snd ?r)"
    have same: "sameLedger (snd ?r) (snd ?p)" by (rule martingaleProgress_same)
    have fields: "v_steps (snd ?p) = v_steps s @ [e]"
      "currentBaseBets (snd ?p) = currentBaseBets s" "currentNode (snd ?p) = currentNode s"
      using sameLedger_fields [OF same] e(1)
      by (simp_all add: martingaleProgress_def)
    have "R = (if currentMultiplier (snd ?p) > 10000 then Break (snd ?p)
               else Continue (fst ?p, c + 1, snd ?p))"
      using assms False ok won
      by (simp add: martingaleIter_def Let_def)
    then have R: "R = Break (snd ?p) \<or> R = Continue (c + 1 < lv, c + 1, snd ?p)"
      unfolding martingaleProgress_spin_count(1)
      by (simp split: if_splits)
    show ?thesis
      using fields e(2) R martingaleProgress_spin_count(2) [of lv "won e" "c + 1" _ "snd ?r"]
      by (intro disjI2 exI [of _ e] exI [of _ "snd ?p"]) auto
  qed
qed

lemma martingaleLoop_spin_count:
  "lt = M_spin_count \<Longrightarrow>
   \<exists>s' new. martingaleLoop rnd initial cfg lt lv start a c s = Inr s'
     \<and> v_steps s' = v_steps s @ new
     \<and> tagsOk (currentMultiplier s) new
     \<and> int (length new) \<le> (if a then max 1 (lv - c) else 0)
     \<and> currentMultiplier s' = exitMult (currentMultiplier s) lv c new
     \<and> currentBaseBets s' = currentBaseBets s \<and> currentNode s' = currentNode s"
proof (induction rnd initial cfg lt lv start a c s rule: martingaleLoop.induct)
  case (1 rnd initial cfg lt lv start a c s)
  note lt = \<open>lt = M_spin_count\<close>
  let ?m = "currentMultiplier s"
  show ?case
  proof (cases "a \<and> int (spinsConsumed s) < maxSpins cfg \<and> v_bankroll s > 0")
    case False
    then have "martingaleLoop rnd initial cfg lt lv start a c s = Inr s"
      by (subst martingaleLoop.simps) auto
    then show ?thesis
      by (intro exI [of _ s] exI [of _ "[]"]) (simp add: max_def)
  next
    case True
    define R where "R = martingaleIter rnd initial cfg lt lv start c s"
    have loop: "martingaleLoop rnd initial cfg lt lv start a c s =
       (case R of Break s1 \<Rightarrow> Inr s1 | Raise e \<Rightarrow> Inl e
        | Continue x \<Rightarrow> martingaleLoop rnd initial cfg lt lv start (fst x) (fst (snd x))
               (snd (snd x)))"
      using True unfolding R_def by (subst martingaleLoop.simps) simp
    from martingaleIter_spin_count [of rnd initial cfg lv start c s R] lt R_def
    consider (stay) "R = Break s"
      | (spin) e s1 where "v_steps s1 = v_steps s @ [e]" "actionType e = MARTINGALE_x ?m"
          "currentMultiplier s1 = (if lv \<le> c + 1 then ?m else if won e then ?m else 2 * ?m)"
          "currentBaseBets s1 = currentBaseBets s" "currentNode s1 = currentNode s"
          "R = Break s1 \<or> R = Continue (c + 1 < lv, c + 1, s1)"
      by auto
    then show ?thesis
    proof cases
      case stay
      with loop have "martingaleLoop rnd initial cfg lt lv start a c s = Inr s" by simp
      then show ?thesis
        using True by (intro exI [of _ s] exI [of _ "[]"]) (simp add: max_def)
    next
      case spin
      from spin(6) show ?thesis
      proof
        assume "R = Break s1"
        with loop have "martingaleLoop rnd initial cfg lt lv start a c s = Inr s1" by simp
        with spin(1-5) True show ?thesis
          by (intro exI [of _ s1] exI [of _ "[e]"]) simp
      next
        assume cont: "R = Continue (c + 1 < lv, c + 1, s1)"
        with loop have eq: "martingaleLoop rnd initial cfg lt lv start a c s =
            martingaleLoop rnd initial cfg lt lv start (c + 1 < lv) (c + 1) s1" by simp
        from "1.IH" [OF True cont [unfolded R_def] lt]
        have "\<exists>s' new.
          martingaleLoop rnd initial cfg lt lv start (c + 1 < lv) (c + 1) s1 = Inr s'
          \<and> v_steps s' = v_steps s1 @ new \<and> tagsOk (currentMultiplier s1) new
          \<and> int (length new) \<le> (if c + 1 < lv then max 1 (lv - (c + 1)) else 0)
          \<and> currentMultiplier s' = exitMult (currentMultiplier s1) lv (c + 1) new
          \<and> currentBaseBets s' = currentBaseBets s1 \<and> currentNode s' = currentNode s1"
          by (simp only: fst_conv snd_conv)
        then obtain s' new where IH:
          "martingaleLoop rnd initial cfg lt lv start (c + 1 < lv) (c + 1) s1 = Inr s'"
          "v_steps s' = v_steps s1 @ new" "tagsOk (currentMultiplier s1) new"
          "int (length new) \<le> (if c + 1 < lv then max 1 (lv - (c + 1)) else 0)"
          "currentMultiplier s' = exitMult (currentMultiplier s1) lv (c + 1) new"
          "currentBaseBets s' = currentBaseBets s1" "currentNode s' = currentNode s1"
          by blast
        show ?thesis
        proof (cases "c + 1 < lv")
          case False
          with IH(4) have "new = []" by simp
          with IH eq spin(1-5) False True show ?thesis
            by (intro exI [of _ s'] exI [of _ "[e]"]) simp
        next
          case lim: True
          with IH eq spin(1-5) True show ?thesis
            by (intro exI [of _ s'] exI [of _ "e # new"]) simp
        qed
      qed
    qed
  qed
qed

lemma enterNode_bets:
  assumes "hasBets (h n)"
  shows "currentMultiplier (enterNode h r (Some n) s) = 1"
    and "currentBaseBets (enterNode h r (Some n) s)
           = (if ntype (h n) = reset then rootBets h r else the (bets (h n)))"
proof -
  from assms have b: "bets (h n) \<noteq> None"
    by (auto simp: hasBets_def split: option.splits)
  show "currentMultiplier (enterNode h r (Some n) s) = 1"
    using assms b
    by (simp add: enterNode_def nodeModifier_def loadNode_def Let_def
        split: ProgressionType.splits)
  show "currentBaseBets (enterNode h r (Some n) s)
           = (if ntype (h n) = reset then rootBets h r else the (bets (h n)))"
    using assms b
    by (simp add: enterNode_def nodeModifier_def loadNode_def Let_def
        split: ProgressionType.splits)
qed

text \<open>
  Claim C9, as stated, fails for the spin that reaches the limit. A martingale node with a
  spin-count limit of 3 loses three times; the bets are 10, 20 and 40, and the node entered
  next, which has no bets of its own, bets 40: the multiplier is 4 after the visit, so the
  third loss has not doubled it.
\<close>

theorem third_loss_is_not_doubled:
  "map_option (map_sum id (map (\<lambda>e. (actionType e, betTotal e, won e)) \<circ> steps))
     (runSimulation zeros spinCountStore 1000 (limits 0 0) (table 4 1000))
   = Some (Inr [(MARTINGALE_x 1, 10, False), (MARTINGALE_x 2, 20, False),
                (MARTINGALE_x 4, 40, False), (BET, 40, False)])
   \<and> martingaleLimitType (spinCountStore 0) = Some M_spin_count
   \<and> martingaleLimitValue (spinCountStore 0) = Some 3
   \<and> bets (spinCountStore 1) = None"
  by code_simp

text \<open>
  Claim C9, amended. A visit to a martingale node with limit type \<open>spin_count\<close> and limit
  value 3 returns without error and adds at most 3 entries to the ledger, whatever the
  bankroll. The first spin is tagged with the multiplier at entry, and each further spin of
  the visit with the multiplier of the spin before it, doubled exactly when that spin was
  not won (\<open>tagsOk\<close>). The multiplier after the visit is the one these rules give, except
  that the spin that reaches the limit never doubles it (\<open>exitMult\<close>). When the node
  entered next has a non-empty bet list of its own, the multiplier is reset to 1 and the
  base wagers become that list, or the bets of the root when that node is a \<open>reset\<close>
  node.
\<close>

theorem martingale_spin_count_visit:
  assumes "martingaleLimitType (h (currentNode s)) = Some M_spin_count"
    and "martingaleLimitValue (h (currentNode s)) = Some 3"
  shows "\<exists>s1 new.
       martingaleLoop rnd initial cfg M_spin_count 3 (v_bankroll s) True 0 s = Inr s1
     \<and> martingaleNode rnd initial h r cfg s =
         Continue (enterNode h r
           (if v_bankroll s1 \<ge> v_bankroll s then win (h (currentNode s))
            else loss (h (currentNode s))) s1)
     \<and> v_steps s1 = v_steps s @ new \<and> length new \<le> 3
     \<and> tagsOk (currentMultiplier s) new
     \<and> currentMultiplier s1 = exitMult (currentMultiplier s) 3 0 new
     \<and> (\<forall>n. hasBets (h n) \<longrightarrow>
           v_steps (enterNode h r (Some n) s1) = v_steps s1
         \<and> currentMultiplier (enterNode h r (Some n) s1) = 1
         \<and> currentBaseBets (enterNode h r (Some n) s1)
             = (if ntype (h n) = reset then rootBets h r else the (bets (h n))))"
proof -
  from martingaleLoop_spin_count [OF refl, of rnd initial cfg 3 "v_bankroll s" True 0 s]
  obtain s1 new where L:
    "martingaleLoop rnd initial cfg M_spin_count 3 (v_bankroll s) True 0 s = Inr s1"
    "v_steps s1 = v_steps s @ new" "tagsOk (currentMultiplier s) new"
    "int (length new) \<le> 3"
    "currentMultiplier s1 = exitMult (currentMultiplier s) 3 0 new"
    by auto
  have node: "martingaleNode rnd initial h r cfg s =
         Continue (enterNode h r
           (if v_bankroll s1 \<ge> v_bankroll s then win (h (currentNode s))
            else loss (h (currentNode s))) s1)"
    using assms L(1) by (simp add: martingaleNode_def Let_def)
  have enter: "\<forall>n. hasBets (h n) \<longrightarrow>
           v_steps (enterNode h r (Some n) s1) = v_steps s1
         \<and> currentMultiplier (enterNode h r (Some n) s1) = 1
         \<and> currentBaseBets (enterNode h r (Some n) s1)
             = (if ntype (h n) = reset then rootBets h r else the (bets (h n)))"
    using sameLedger_fields [OF enterNode_same] enterNode_bets by blast
  from L node enter show ?thesis
    by (intro exI [of _ s1] exI [of _ new]) simp
qed

theorem martingale_spin_count_visit_witness:
  "\<exists>s1. martingaleLoop zeros 1000 (table 4 1000) M_spin_count 3 1000 True 0
           (initState 1000 spinCountStore 0) = Inr s1
     \<and> length (v_steps s1) \<le> 3 \<and> tagsOk 1 (v_steps s1) \<and> currentMultiplier s1 = 4
     \<and> hasBets (spinCountStore 0)
     \<and> currentMultiplier (enterNode spinCountStore 0 (Some 0) s1) = 1"
proof -
  let ?s = "initState 1000 spinCountStore 0"
  have st: "v_bankroll ?s = 1000" "v_steps ?s = []" "currentMultiplier ?s = 1"
    "currentNode ?s = 0"
    by (simp_all add: initState_def)
  have nd: "martingaleLimitType (spinCountStore 0) = Some M_spin_count"
    "martingaleLimitValue (spinCountStore 0) = Some 3" "hasBets (spinCountStore 0)"
    by (simp_all add: spinCountStore_def plainNode_def hasBets_def)
  have val: "map_sum id currentMultiplier
          (martingaleLoop zeros 1000 (table 4 1000) M_spin_count 3 1000 True 0 ?s) = Inr 4"
    by code_simp
  from martingale_spin_count_visit [of spinCountStore ?s zeros 1000 "table 4 1000" 0] st nd
  obtain s1 new where L:
    "martingaleLoop zeros 1000 (table 4 1000) M_spin_count 3 1000 True 0 ?s = Inr s1"
    "v_steps s1 = new" "length new \<le> 3" "tagsOk 1 new"
    "currentMultiplier (enterNode spinCountStore 0 (Some 0) s1) = 1"
    by auto
  from val L(1) have "currentMultiplier s1 = 4" by simp
  with L nd(3) show ?thesis by auto
qed

section \<open>No run raises an error\<close>

lemma martingaleIter_no_raise:
  "martingaleIter rnd initial cfg lt lv start c s \<noteq> Raise e"
proof (cases "totalAmount (scaleBets (currentMultiplier s) (currentBaseBets s)) > tableMax cfg
    \<or> totalAmount (scaleBets (currentMultiplier s) (currentBaseBets s)) > v_bankroll s")
  case True
  then show ?thesis by (auto simp: martingaleIter_def Let_def)
next
  case False
  let ?r = "recordStep initial (generateSpin (rnd (spinsConsumed s)))
              (scaleBets (currentMultiplier s) (currentBaseBets s))
              (MARTINGALE_x (currentMultiplier s)) False s"
  from False have ok: "fst ?r" by (simp add: recordStep_fst)
  from recordStep_ok [OF ok] obtain e' where "v_steps (snd ?r) = v_steps s @ [e']" by blast
  from lastStepWon_snoc [OF this] False ok show ?thesis
    by (simp add: martingaleIter_def Let_def)
qed

lemma martingaleLoop_no_error:
  "\<exists>s'. martingaleLoop rnd initial cfg lt lv start a c s = Inr s'"
proof (induction rnd initial cfg lt lv start a c s rule: martingaleLoop.induct)
  case (1 rnd initial cfg lt lv start a c s)
  show ?case
  proof (cases "a \<and> int (spinsConsumed s) < maxSpins cfg \<and> v_bankroll s > 0")
    case False
    then show ?thesis by (subst martingaleLoop.simps) auto
  next
    case True
    show ?thesis
    proof (cases "martingaleIter rnd initial cfg lt lv start c s")
      case (Continue x)
      from "1.IH" [OF True Continue] True Continue show ?thesis
        by (subst martingaleLoop.simps) simp
    next
      case (Break s1)
      with True show ?thesis by (subst martingaleLoop.simps) simp
    next
      case (Raise e)
      with martingaleIter_no_raise show ?thesis by blast
    qed
  qed
qed

lemma repeatIter_no_raise:
  "repeatIter rnd initial cfg rt rv start ls lw s \<noteq> Raise e"
proof (cases "totalAmount (scaledBets cfg s) > v_bankroll s")
  case True
  then show ?thesis by (simp add: repeatIter_def Let_def)
next
  case False
  let ?r = "recordStep initial (generateSpin (rnd (spinsConsumed s))) (scaledBets cfg s)
              (REPEAT rt) False s"
  from False have "fst ?r" by (simp add: recordStep_fst)
  from recordStep_ok [OF this] obtain e' where "v_steps (snd ?r) = v_steps s @ [e']" by blast
  from lastStepWon_snoc [OF this] False show ?thesis
    by (simp add: repeatIter_def Let_def)
qed

lemma repeatLoop_no_error:
  "\<exists>s'. repeatLoop rnd initial cfg rt rv start a ls lw s = Inr s'"
proof (induction rnd initial cfg rt rv start a ls lw s rule: repeatLoop.induct)
  case (1 rnd initial cfg rt rv start a ls lw s)
  show ?case
  proof (cases "a \<and> int (spinsConsumed s) < maxSpins cfg \<and> v_bankroll s > 0")
    case False
    then show ?thesis by (subst repeatLoop.simps) auto
  next
    case True
    show ?thesis
    proof (cases "repeatIter rnd initial cfg rt rv start ls lw s")
      case (Continue x)
      from "1.IH" [OF True Continue] True Continue show ?thesis
        by (subst repeatLoop.simps) simp
    next
      case (Break s1)
      with True show ?thesis by (subst repeatLoop.simps) simp
    next
      case (Raise e)
      with repeatIter_no_raise show ?thesis by blast
    qed
  qed
qed

lemma mainBody_cases:
  "(mainBody rnd initial h strategy cfg s = Break s
      \<and> (v_bankroll s \<le> stopLoss strategy
         \<or> (takeProfit strategy > 0 \<and> v_bankroll s \<ge> takeProfit strategy)
         \<or> v_bankroll s \<le> 0
         \<or> totalAmount (scaledBets cfg s) > v_bankroll s))
   \<or> (\<exists>s'. mainBody rnd initial h strategy cfg s = Continue s')"
proof (cases "v_bankroll s \<le> stopLoss strategy
        \<or> (takeProfit strategy > 0 \<and> v_bankroll s \<ge> takeProfit strategy)
        \<or> v_bankroll s \<le> 0")
  case True
  then show ?thesis by (auto simp: mainBody_def)
next
  case False
  consider (m) "ntype (h (currentNode s)) = martingale"
    | (r) "ntype (h (currentNode s)) \<noteq> martingale" "ntype (h (currentNode s)) = repeat_until"
    | (s) "ntype (h (currentNode s)) \<noteq> martingale" "ntype (h (currentNode s)) \<noteq> repeat_until"
    by blast
  then show ?thesis
  proof cases
    case m
    obtain s1 where "martingaleLoop rnd initial cfg
            (case martingaleLimitType (h (currentNode s)) of
             None \<Rightarrow> M_until_bankrupt | Some t \<Rightarrow> t)
            (case martingaleLimitValue (h (currentNode s)) of None \<Rightarrow> 0 | Some v \<Rightarrow> v)
            (v_bankroll s) True 0 s = Inr s1"
      using martingaleLoop_no_error by blast
    with m False show ?thesis
      by (auto simp: mainBody_def martingaleNode_def Let_def)
  next
    case r
    obtain s1 where "repeatLoop rnd initial cfg
            (case repeatUntilType (h (currentNode s)) of None \<Rightarrow> R_spins | Some t \<Rightarrow> t)
            (case repeatUntilValue (h (currentNode s)) of
               None \<Rightarrow> 1 | Some v \<Rightarrow> if v = 0 then 1 else v)
            (v_bankroll s) True 0 0 s = Inr s1"
      using repeatLoop_no_error by blast
    with r False show ?thesis
      by (auto simp: mainBody_def repeatNode_def Let_def)
  next
    case s
    with False singleSpin_progress [of rnd initial h "rootNode strategy" cfg s] show ?thesis
      by (auto simp: mainBody_def)
  qed
qed

lemma mainLoop_halted:
  assumes run: "mainLoop rnd initial h strategy cfg s = Some y"
  shows "\<exists>s'. y = Inr s' \<and> halted strategy cfg s'"
proof (rule mainLoop.raw_induct
    [where P = "\<lambda>rnd initial h strategy cfg s y. \<exists>s'. y = Inr s' \<and> halted strategy cfg s'",
     OF _ run])
  fix f :: "(nat \<Rightarrow> nat) \<Rightarrow> int \<Rightarrow> store \<Rightarrow> StrategyConfig \<Rightarrow> SimConfig \<Rightarrow> run_state
              \<Rightarrow> (error + run_state) option"
    and rnd initial h strategy cfg s y
  assume IH: "\<And>rnd initial h strategy cfg s y. f rnd initial h strategy cfg s = Some y \<Longrightarrow>
                 \<exists>s'. y = Inr s' \<and> halted strategy cfg s'"
  assume eq: "(if int (spinsConsumed s) < maxSpins cfg
      then case mainBody rnd initial h strategy cfg s of
           Continue s1 \<Rightarrow> f rnd initial h strategy cfg s1
           | Break s1 \<Rightarrow> Some (Inr s1) | Raise e \<Rightarrow> Some (Inl e)
      else Some (Inr s)) = Some y"
  show "\<exists>s'. y = Inr s' \<and> halted strategy cfg s'"
  proof (cases "int (spinsConsumed s) < maxSpins cfg")
    case False
    with eq show ?thesis by (auto simp: halted_def)
  next
    case True
    from mainBody_cases [of rnd initial h strategy cfg s]
    consider (cont) s1 where "mainBody rnd initial h strategy cfg s = Continue s1"
      | (brk) "mainBody rnd initial h strategy cfg s = Break s"
          "v_bankroll s \<le> stopLoss strategy
           \<or> (takeProfit strategy > 0 \<and> v_bankroll s \<ge> takeProfit strategy)
           \<or> v_bankroll s \<le> 0
           \<or> totalAmount (scaledBets cfg s) > v_bankroll s"
      by blast
    then show ?thesis
    proof cases
      case cont
      with eq True have "f rnd initial h strategy cfg s1 = Some y" by simp
      then show ?thesis by (rule IH)
    next
      case brk
      with eq True show ?thesis by (auto simp: halted_def)
    qed
  qed
qed

section \<open>The state in which a run returns\<close>

text \<open>
  A run that returns, returns a result and no error, and in its final state the spin budget
  is exhausted, or the bankroll is at or below the stop-loss, or a positive take-profit is
  reached, or the bankroll is at or below 0, or the total of the next wager (after the
  table-max scaling) exceeds the bankroll. When the tree has no martingale and no
  repeat-until node, the run does return.
\<close>

theorem run_halts_at_limits:
  "(\<forall>y. runSimulation rnd h initial strategy cfg = Some y \<longrightarrow>
      (\<exists>s. finalState rnd h initial strategy cfg = Some (Inr s)
         \<and> y = Inr (mkResult initial cfg s)
         \<and> totalSpins (stats (mkResult initial cfg s)) = spinsConsumed s
         \<and> finalBankroll (stats (mkResult initial cfg s)) = v_bankroll s
         \<and> (int (spinsConsumed s) \<ge> maxSpins cfg
            \<or> v_bankroll s \<le> stopLoss strategy
            \<or> (takeProfit strategy > 0 \<and> v_bankroll s \<ge> takeProfit strategy)
            \<or> v_bankroll s \<le> 0
            \<or> totalAmount (scaledBets cfg s) > v_bankroll s)))
   \<and> ((\<forall>n. ntype (h n) \<noteq> martingale \<and> ntype (h n) \<noteq> repeat_until) \<longrightarrow>
        (\<exists>y. runSimulation rnd h initial strategy cfg = Some y))"
proof (intro conjI allI impI)
  fix y assume "runSimulation rnd h initial strategy cfg = Some y"
  then obtain z where z: "finalState rnd h initial strategy cfg = Some z"
    and y: "y = map_sum id (mkResult initial cfg) z"
    by (auto simp: runSimulation_def)
  from z have "\<exists>s. z = Inr s \<and> halted strategy cfg s"
    unfolding finalState_def by (rule mainLoop_halted)
  then obtain s where s: "z = Inr s" and hl: "halted strategy cfg s" by blast
  have "length (v_steps s) = spinsConsumed s"
    using finalState_runs [OF z [unfolded s]] by (rule runs_length) (simp add: initState_def)
  with z y s hl show "\<exists>s. finalState rnd h initial strategy cfg = Some (Inr s)
         \<and> y = Inr (mkResult initial cfg s)
         \<and> totalSpins (stats (mkResult initial cfg s)) = spinsConsumed s
         \<and> finalBankroll (stats (mkResult initial cfg s)) = v_bankroll s
         \<and> (int (spinsConsumed s) \<ge> maxSpins cfg
            \<or> v_bankroll s \<le> stopLoss strategy
            \<or> (takeProfit strategy > 0 \<and> v_bankroll s \<ge> takeProfit strategy)
            \<or> v_bankroll s \<le> 0
            \<or> totalAmount (scaledBets cfg s) > v_bankroll s)"
    by (intro exI [of _ s]) (simp add: mkResult_def halted_def)
next
  assume "\<forall>n. ntype (h n) \<noteq> martingale \<and> ntype (h n) \<noteq> repeat_until"
  from mainLoop_terminates [OF this]
  show "\<exists>y. runSimulation rnd h initial strategy cfg = Some y"
    unfolding runSimulation_def finalState_def by (metis option.simps(9))
qed

text \<open>
  The run of the betting root that has itself as win child, from a bankroll of 25.
\<close>

theorem run_halts_at_limits_witness:
  "\<exists>s. runSimulation zeros loopStore 25 (limits 0 0) (table 5 1000)
         = Some (Inr (mkResult 25 (table 5 1000) s))
     \<and> spinsConsumed s = 2 \<and> v_bankroll s = 5
     \<and> totalAmount (scaledBets (table 5 1000) s) > v_bankroll s
     \<and> win (loopStore 0) = Some 0
     \<and> (\<forall>n. ntype (loopStore n) \<noteq> martingale \<and> ntype (loopStore n) \<noteq> repeat_until)"
proof -
  have plain: "\<forall>n. ntype (loopStore n) \<noteq> martingale \<and> ntype (loopStore n) \<noteq> repeat_until"
    by (simp add: loopStore_def plainNode_def)
  have val: "map_option (map_sum id (\<lambda>s. (spinsConsumed s, v_bankroll s,
                 totalAmount (scaledBets (table 5 1000) s))))
          (finalState zeros loopStore 25 (limits 0 0) (table 5 1000)) = Some (Inr (2, 5, 10))"
    by code_simp
  note inst = run_halts_at_limits [of zeros loopStore 25 "limits 0 0" "table 5 1000"]
  from inst plain obtain y where
    y: "runSimulation zeros loopStore 25 (limits 0 0) (table 5 1000) = Some y" by blast
  with inst obtain s where s: "finalState zeros loopStore 25 (limits 0 0) (table 5 1000) = Some (Inr s)"
    "y = Inr (mkResult 25 (table 5 1000) s)"
    by blast
  from val s(1) have "spinsConsumed s = 2" "v_bankroll s = 5"
    "totalAmount (scaledBets (table 5 1000) s) = 10" by simp_all
  with s y plain show ?thesis
    by (intro exI [of _ s]) (simp add: loopStore_def plainNode_def)
qed

section \<open>The tests before a spin\<close>

lemma martingaleIter_segment:
  assumes "int (spinsConsumed s) < maxSpins cfg" and "v_bankroll s > 0"
  shows "martingaleIter rnd initial cfg lt lv start c s = Continue (a, c', s') \<Longrightarrow>
           \<exists>e. v_steps s' = v_steps s @ [e] \<and> isMartingaleTag (actionType e)
              \<and> spinIndex e = Suc (spinsConsumed s) \<and> bankroll e - net e = v_bankroll s
              \<and> v_bankroll s' = bankroll e \<and> spinsConsumed s' = Suc (spinsConsumed s)"
    and "martingaleIter rnd initial cfg lt lv start c s = Break s' \<Longrightarrow>
           v_steps s' = v_steps s
           \<or> (\<exists>e. v_steps s' = v_steps s @ [e] \<and> isMartingaleTag (actionType e)
                \<and> spinIndex e = Suc (spinsConsumed s) \<and> bankroll e - net e = v_bankroll s)"
proof -
  let ?bs = "scaleBets (currentMultiplier s) (currentBaseBets s)"
  let ?r = "recordStep initial (generateSpin (rnd (spinsConsumed s))) ?bs
              (MARTINGALE_x (currentMultiplier s)) False s"
  have ok: "fst ?r \<Longrightarrow>
      \<exists>e. v_steps (snd (martingaleProgress lt lv w n p (snd ?r))) = v_steps s @ [e]
         \<and> isMartingaleTag (actionType e)
         \<and> spinIndex e = Suc (spinsConsumed s) \<and> bankroll e - net e = v_bankroll s
         \<and> v_bankroll (snd (martingaleProgress lt lv w n p (snd ?r))) = bankroll e
         \<and> spinsConsumed (snd (martingaleProgress lt lv w n p (snd ?r))) = Suc (spinsConsumed s)"
    for w n p
  proof -
    assume f: "fst ?r"
    from recordStep_ok [OF f] obtain e where e:
      "v_steps (snd ?r) = v_steps s @ [e]" "bankroll e = v_bankroll (snd ?r)"
      "bankroll e = v_bankroll s + net e" "spinIndex e = Suc (spinsConsumed s)"
      "actionType e = MARTINGALE_x (currentMultiplier s)"
      by blast
    from sameLedger_fields [OF martingaleProgress_same [of "snd ?r" lt lv w n p]] e
    show ?thesis by (intro exI [of _ e]) simp
  qed
  have nok: "\<not> fst ?r \<Longrightarrow> v_steps (snd ?r) = v_steps s"
    by (simp add: recordStep_fail)
  show "martingaleIter rnd initial cfg lt lv start c s = Continue (a, c', s') \<Longrightarrow>
           \<exists>e. v_steps s' = v_steps s @ [e] \<and> isMartingaleTag (actionType e)
              \<and> spinIndex e = Suc (spinsConsumed s) \<and> bankroll e - net e = v_bankroll s
              \<and> v_bankroll s' = bankroll e \<and> spinsConsumed s' = Suc (spinsConsumed s)"
    using ok
    by (auto simp: martingaleIter_def Let_def split: if_splits sum.splits)
  show "martingaleIter rnd initial cfg lt lv start c s = Break s' \<Longrightarrow>
           v_steps s' = v_steps s
           \<or> (\<exists>e. v_steps s' = v_steps s @ [e] \<and> isMartingaleTag (actionType e)
                \<and> spinIndex e = Suc (spinsConsumed s) \<and> bankroll e - net e = v_bankroll s)"
    using ok nok
    by (auto simp: martingaleIter_def Let_def split: if_splits sum.splits)
qed

lemma martingaleLoop_segment:
  "martingaleLoop rnd initial cfg lt lv start a c s = Inr s' \<Longrightarrow>
   \<exists>new. v_steps s' = v_steps s @ new
      \<and> innerSpins cfg isMartingaleTag (v_bankroll s) (spinsConsumed s) new"
proof (induction rnd initial cfg lt lv start a c s rule: martingaleLoop.induct)
  case (1 rnd initial cfg lt lv start a c s)
  show ?case
  proof (cases "a \<and> int (spinsConsumed s) < maxSpins cfg \<and> v_bankroll s > 0")
    case False
    with "1.prems" have "s' = s"
      by (subst (asm) martingaleLoop.simps) auto
    then show ?thesis by (intro exI [of _ "[]"]) simp
  next
    case True
    then have g: "int (spinsConsumed s) < maxSpins cfg" "v_bankroll s > 0" by simp_all
    show ?thesis
    proof (cases "martingaleIter rnd initial cfg lt lv start c s")
      case (Break s1)
      with True "1.prems" have eq: "s' = s1"
        by (subst (asm) martingaleLoop.simps) auto
      from martingaleIter_segment(2) [OF g Break [folded eq]]
      show ?thesis
      proof
        assume "v_steps s' = v_steps s"
        then show ?thesis by (intro exI [of _ "[]"]) simp
      next
        assume "\<exists>e. v_steps s' = v_steps s @ [e] \<and> isMartingaleTag (actionType e)
                \<and> spinIndex e = Suc (spinsConsumed s) \<and> bankroll e - net e = v_bankroll s"
        then obtain e where "v_steps s' = v_steps s @ [e]" "isMartingaleTag (actionType e)"
          "spinIndex e = Suc (spinsConsumed s)" "bankroll e - net e = v_bankroll s" by blast
        with g show ?thesis by (intro exI [of _ "[e]"]) simp
      qed
    next
      case (Raise e)
      with True "1.prems" show ?thesis
        by (subst (asm) martingaleLoop.simps) auto
    next
      case (Continue x)
      obtain a1 c1 s1 where x: "x = (a1, c1, s1)" by (cases x) auto
      from True "1.prems" Continue x
      have rec: "martingaleLoop rnd initial cfg lt lv start a1 c1 s1 = Inr s'"
        by (subst (asm) martingaleLoop.simps) auto
      from "1.IH" [OF True Continue] rec x obtain new where new:
        "v_steps s' = v_steps s1 @ new"
        "innerSpins cfg isMartingaleTag (v_bankroll s1) (spinsConsumed s1) new"
        by auto
      from martingaleIter_segment(1) [OF g Continue [unfolded x]] obtain e where e:
        "v_steps s1 = v_steps s @ [e]" "isMartingaleTag (actionType e)"
        "spinIndex e = Suc (spinsConsumed s)" "bankroll e - net e = v_bankroll s"
        "v_bankroll s1 = bankroll e" "spinsConsumed s1 = Suc (spinsConsumed s)"
        by blast
      from new e g show ?thesis by (intro exI [of _ "e # new"]) simp
    qed
  qed
qed

lemma repeatIter_segment:
  assumes "int (spinsConsumed s) < maxSpins cfg" and "v_bankroll s > 0"
  shows "repeatIter rnd initial cfg rt rv start ls lw s = Continue (a, ls', lw', s') \<Longrightarrow>
           \<exists>e. v_steps s' = v_steps s @ [e] \<and> isRepeatTag (actionType e)
              \<and> spinIndex e = Suc (spinsConsumed s) \<and> bankroll e - net e = v_bankroll s
              \<and> v_bankroll s' = bankroll e \<and> spinsConsumed s' = Suc (spinsConsumed s)"
    and "repeatIter rnd initial cfg rt rv start ls lw s = Break s' \<Longrightarrow> s' = s"
proof -
  let ?bs = "scaledBets cfg s"
  let ?r = "recordStep initial (generateSpin (rnd (spinsConsumed s))) ?bs (REPEAT rt) False s"
  have ok: "totalAmount ?bs \<le> v_bankroll s \<Longrightarrow>
      \<exists>e. v_steps (snd ?r) = v_steps s @ [e] \<and> isRepeatTag (actionType e)
         \<and> spinIndex e = Suc (spinsConsumed s) \<and> bankroll e - net e = v_bankroll s
         \<and> v_bankroll (snd ?r) = bankroll e
         \<and> spinsConsumed (snd ?r) = Suc (spinsConsumed s)"
  proof -
    assume "totalAmount ?bs \<le> v_bankroll s"
    then have f: "fst ?r" by (simp add: recordStep_fst)
    from recordStep_ok [OF f] obtain e where e:
      "v_steps (snd ?r) = v_steps s @ [e]" "bankroll e = v_bankroll (snd ?r)"
      "bankroll e = v_bankroll s + net e" "spinIndex e = Suc (spinsConsumed s)"
      "actionType e = REPEAT rt"
      by blast
    then show ?thesis by (intro exI [of _ e]) simp
  qed
  show "repeatIter rnd initial cfg rt rv start ls lw s = Continue (a, ls', lw', s') \<Longrightarrow>
           \<exists>e. v_steps s' = v_steps s @ [e] \<and> isRepeatTag (actionType e)
              \<and> spinIndex e = Suc (spinsConsumed s) \<and> bankroll e - net e = v_bankroll s
              \<and> v_bankroll s' = bankroll e \<and> spinsConsumed s' = Suc (spinsConsumed s)"
    using ok
    by (auto simp: repeatIter_def Let_def split: if_splits sum.splits)
  show "repeatIter rnd initial cfg rt rv start ls lw s = Break s' \<Longrightarrow> s' = s"
    by (auto simp: repeatIter_def Let_def split: if_splits sum.splits)
qed

lemma repeatLoop_segment:
  "repeatLoop rnd initial cfg rt rv start a ls lw s = Inr s' \<Longrightarrow>
   \<exists>new. v_steps s' = v_steps s @ new
      \<and> innerSpins cfg isRepeatTag (v_bankroll s) (spinsConsumed s) new"
proof (induction rnd initial cfg rt rv start a ls lw s rule: repeatLoop.induct)
  case (1 rnd initial cfg rt rv start a ls lw s)
  show ?case
  proof (cases "a \<and> int (spinsConsumed s) < maxSpins cfg \<and> v_bankroll s > 0")
    case False
    with "1.prems" have "s' = s"
      by (subst (asm) repeatLoop.simps) auto
    then show ?thesis by (intro exI [of _ "[]"]) simp
  next
    case True
    then have g: "int (spinsConsumed s) < maxSpins cfg" "v_bankroll s > 0" by simp_all
    show ?thesis
    proof (cases "repeatIter rnd initial cfg rt rv start ls lw s")
      case (Break s1)
      with True "1.prems" have eq: "s' = s1"
        by (subst (asm) repeatLoop.simps) auto
      from repeatIter_segment(2) [OF g Break [folded eq]]
      show ?thesis by (intro exI [of _ "[]"]) simp
    next
      case (Raise e)
      with True "1.prems" show ?thesis
        by (subst (asm) repeatLoop.simps) auto
    next
      case (Continue x)
      obtain a1 ls1 lw1 s1 where x: "x = (a1, ls1, lw1, s1)" by (cases x) auto
      from True "1.prems" Continue x
      have rec: "repeatLoop rnd initial cfg rt rv start a1 ls1 lw1 s1 = Inr s'"
        by (subst (asm) repeatLoop.simps) auto
      from "1.IH" [OF True Continue] rec x obtain new where new:
        "v_steps s' = v_steps s1 @ new"
        "innerSpins cfg isRepeatTag (v_bankroll s1) (spinsConsumed s1) new"
        by auto
      from repeatIter_segment(1) [OF g Continue [unfolded x]] obtain e where e:
        "v_steps s1 = v_steps s @ [e]" "isRepeatTag (actionType e)"
        "spinIndex e = Suc (spinsConsumed s)" "bankroll e - net e = v_bankroll s"
        "v_bankroll s1 = bankroll e" "spinsConsumed s1 = Suc (spinsConsumed s)"
        by blast
      from new e g show ?thesis by (intro exI [of _ "e # new"]) simp
    qed
  qed
qed

lemma singleSpin_segment:
  shows "singleSpin rnd initial h r cfg s = Continue s' \<Longrightarrow>
           \<exists>e ws. v_steps s' = v_steps s @ e # ws \<and> isSpinTag (actionType e)
              \<and> spinIndex e = Suc (spinsConsumed s) \<and> bankroll e - net e = v_bankroll s
              \<and> list_all (\<lambda>x. isWaitTag (actionType x)) ws"
    and "singleSpin rnd initial h r cfg s = Break s' \<Longrightarrow> s' = s"
proof -
  let ?bs = "scaledBets cfg s"
  let ?tag = "if length ?bs > 0 then (if length (v_steps s) = 0 then START else BET) else NO_BET"
  let ?r = "recordStep initial (generateSpin (rnd (spinsConsumed s))) ?bs ?tag False s"
  have ok: "totalAmount ?bs \<le> v_bankroll s \<Longrightarrow>
      \<exists>e ws. v_steps (enterNodeSingle rnd initial h r nx (snd ?r)) = v_steps s @ e # ws
         \<and> isSpinTag (actionType e)
         \<and> spinIndex e = Suc (spinsConsumed s) \<and> bankroll e - net e = v_bankroll s
         \<and> list_all (\<lambda>x. isWaitTag (actionType x)) ws" for nx
  proof -
    assume "totalAmount ?bs \<le> v_bankroll s"
    then have f: "fst ?r" by (simp add: recordStep_fst)
    from recordStep_ok [OF f] obtain e where e:
      "v_steps (snd ?r) = v_steps s @ [e]"
      "bankroll e = v_bankroll s + net e" "spinIndex e = Suc (spinsConsumed s)"
      "actionType e = ?tag"
      by blast
    from enterNodeSingle_waited [of "snd ?r" rnd initial h r nx] obtain ws where ws:
      "v_steps (enterNodeSingle rnd initial h r nx (snd ?r)) = v_steps (snd ?r) @ ws"
      "list_all (\<lambda>e. net e = 0 \<and> isWaitTag (actionType e)) ws"
      unfolding waited_def by blast
    from ws(2) have "list_all (\<lambda>x. isWaitTag (actionType x)) ws"
      by (simp add: list_all_iff)
    with e ws(1) show ?thesis
      by (intro exI [of _ e] exI [of _ ws]) simp
  qed
  show "singleSpin rnd initial h r cfg s = Continue s' \<Longrightarrow>
           \<exists>e ws. v_steps s' = v_steps s @ e # ws \<and> isSpinTag (actionType e)
              \<and> spinIndex e = Suc (spinsConsumed s) \<and> bankroll e - net e = v_bankroll s
              \<and> list_all (\<lambda>x. isWaitTag (actionType x)) ws"
    using ok
    by (auto simp: singleSpin_def Let_def split: if_splits sum.splits)
  show "singleSpin rnd initial h r cfg s = Break s' \<Longrightarrow> s' = s"
    by (auto simp: singleSpin_def Let_def split: if_splits sum.splits)
qed

lemma tag_kinds:
  "isSpinTag t \<Longrightarrow> \<not> isMartingaleTag t \<and> \<not> isRepeatTag t \<and> \<not> isWaitTag t"
  "isMartingaleTag t \<Longrightarrow> \<not> isSpinTag t \<and> \<not> isRepeatTag t \<and> \<not> isWaitTag t"
  "isRepeatTag t \<Longrightarrow> \<not> isSpinTag t \<and> \<not> isMartingaleTag t \<and> \<not> isWaitTag t"
  "isWaitTag t \<Longrightarrow> \<not> isSpinTag t \<and> \<not> isMartingaleTag t \<and> \<not> isRepeatTag t"
  by (cases t; simp)+

lemma guarded_append:
  "guarded strategy cfg prev (xs @ ys) =
     (guarded strategy cfg prev xs \<and> guarded strategy cfg (lastTag prev xs) ys)"
  by (induction xs arbitrary: prev) (auto simp: lastTag_def)

lemma waits_guarded:
  "list_all (\<lambda>x. isWaitTag (actionType x)) ws \<Longrightarrow> guarded strategy cfg prev ws"
  by (induction ws arbitrary: prev) (auto simp: spinOk_def dest: tag_kinds(4))

lemma martingaleSpins_guarded:
  "innerSpins cfg isMartingaleTag b n es \<Longrightarrow>
   testsPassed strategy b \<or> (case prev of None \<Rightarrow> False | Some p \<Rightarrow> isMartingaleTag p) \<Longrightarrow>
   guarded strategy cfg prev es"
proof (induction es arbitrary: b n prev)
  case Nil
  show ?case by simp
next
  case (Cons e es)
  from Cons.prems(1) have e: "isMartingaleTag (actionType e)" "int n < maxSpins cfg" "b > 0"
    "spinIndex e = Suc n" "bankroll e - net e = b"
    and rest: "innerSpins cfg isMartingaleTag (bankroll e) (Suc n) es"
    by simp_all
  have "spinOk strategy cfg prev e"
    using e Cons.prems(2) tag_kinds(2) [OF e(1)] by (simp add: spinOk_def)
  moreover have "guarded strategy cfg (Some (actionType e)) es"
    using rest by (rule Cons.IH) (simp add: e(1))
  ultimately show ?case by simp
qed

lemma repeatSpins_guarded:
  "innerSpins cfg isRepeatTag b n es \<Longrightarrow>
   testsPassed strategy b \<or> (case prev of None \<Rightarrow> False | Some p \<Rightarrow> isRepeatTag p) \<Longrightarrow>
   guarded strategy cfg prev es"
proof (induction es arbitrary: b n prev)
  case Nil
  show ?case by simp
next
  case (Cons e es)
  from Cons.prems(1) have e: "isRepeatTag (actionType e)" "int n < maxSpins cfg" "b > 0"
    "spinIndex e = Suc n" "bankroll e - net e = b"
    and rest: "innerSpins cfg isRepeatTag (bankroll e) (Suc n) es"
    by simp_all
  have "spinOk strategy cfg prev e"
    using e Cons.prems(2) tag_kinds(3) [OF e(1)] by (simp add: spinOk_def)
  moreover have "guarded strategy cfg (Some (actionType e)) es"
    using rest by (rule Cons.IH) (simp add: e(1))
  ultimately show ?case by simp
qed

lemma martingaleNode_segment:
  shows "martingaleNode rnd initial h r cfg s = Continue s' \<Longrightarrow>
           \<exists>new. v_steps s' = v_steps s @ new
              \<and> innerSpins cfg isMartingaleTag (v_bankroll s) (spinsConsumed s) new"
    and "martingaleNode rnd initial h r cfg s \<noteq> Break s'"
proof -
  show "martingaleNode rnd initial h r cfg s = Continue s' \<Longrightarrow>
           \<exists>new. v_steps s' = v_steps s @ new
              \<and> innerSpins cfg isMartingaleTag (v_bankroll s) (spinsConsumed s) new"
    using sameLedger_fields [OF enterNode_same]
    by (auto simp: martingaleNode_def Let_def split: sum.splits dest!: martingaleLoop_segment)
  show "martingaleNode rnd initial h r cfg s \<noteq> Break s'"
    by (auto simp: martingaleNode_def Let_def split: sum.splits)
qed

lemma repeatNode_segment:
  shows "repeatNode rnd initial h r cfg s = Continue s' \<Longrightarrow>
           \<exists>new. v_steps s' = v_steps s @ new
              \<and> innerSpins cfg isRepeatTag (v_bankroll s) (spinsConsumed s) new"
    and "repeatNode rnd initial h r cfg s \<noteq> Break s'"
proof -
  show "repeatNode rnd initial h r cfg s = Continue s' \<Longrightarrow>
           \<exists>new. v_steps s' = v_steps s @ new
              \<and> innerSpins cfg isRepeatTag (v_bankroll s) (spinsConsumed s) new"
    using sameLedger_fields [OF enterNode_same]
    by (auto simp: repeatNode_def Let_def split: sum.splits dest!: repeatLoop_segment)
  show "repeatNode rnd initial h r cfg s \<noteq> Break s'"
    by (auto simp: repeatNode_def Let_def split: sum.splits)
qed

lemma innerSpins_hd:
  "innerSpins cfg kind b n new \<Longrightarrow> new \<noteq> [] \<Longrightarrow>
   spinIndex (hd new) = Suc n \<and> bankroll (hd new) - net (hd new) = b"
  by (cases new) simp_all

lemma mainBody_segment:
  assumes "mainBody rnd initial h strategy cfg s = Continue s'
           \<or> mainBody rnd initial h strategy cfg s = Break s'"
  shows "\<exists>new. v_steps s' = v_steps s @ new
     \<and> (new \<noteq> [] \<longrightarrow>
          testsPassed strategy (v_bankroll s)
          \<and> spinIndex (hd new) = Suc (spinsConsumed s)
          \<and> bankroll (hd new) - net (hd new) = v_bankroll s
          \<and> (isSpinTag (actionType (hd new))
               \<and> list_all (\<lambda>x. isWaitTag (actionType x)) (tl new)
             \<or> innerSpins cfg isMartingaleTag (v_bankroll s) (spinsConsumed s) new
             \<or> innerSpins cfg isRepeatTag (v_bankroll s) (spinsConsumed s) new))"
proof (cases "testsPassed strategy (v_bankroll s)")
  case False
  then have "mainBody rnd initial h strategy cfg s = Break s"
    by (auto simp: mainBody_def testsPassed_def)
  with assms have "s' = s" by simp
  then show ?thesis by (intro exI [of _ "[]"]) simp
next
  case True
  then have go: "\<not> v_bankroll s \<le> stopLoss strategy"
    "\<not> (takeProfit strategy > 0 \<and> v_bankroll s \<ge> takeProfit strategy)"
    "\<not> v_bankroll s \<le> 0"
    by (auto simp: testsPassed_def)
  show ?thesis
  proof (cases "ntype (h (currentNode s)) = martingale")
    case m: True
    with go have body: "mainBody rnd initial h strategy cfg s =
        martingaleNode rnd initial h (rootNode strategy) cfg s"
      by (auto simp: mainBody_def)
    with assms martingaleNode_segment(2) [of rnd initial h "rootNode strategy" cfg s s']
    have "martingaleNode rnd initial h (rootNode strategy) cfg s = Continue s'" by simp
    from martingaleNode_segment(1) [OF this] obtain new where new:
      "v_steps s' = v_steps s @ new"
      "innerSpins cfg isMartingaleTag (v_bankroll s) (spinsConsumed s) new" by blast
    with True innerSpins_hd [OF new(2)] show ?thesis
      by (intro exI [of _ new]) simp
  next
    case nm: False
    show ?thesis
    proof (cases "ntype (h (currentNode s)) = repeat_until")
      case True
      with go nm have body: "mainBody rnd initial h strategy cfg s =
          repeatNode rnd initial h (rootNode strategy) cfg s"
        by (auto simp: mainBody_def)
      with assms repeatNode_segment(2) [of rnd initial h "rootNode strategy" cfg s s']
      have "repeatNode rnd initial h (rootNode strategy) cfg s = Continue s'" by simp
      from repeatNode_segment(1) [OF this] obtain new where new:
        "v_steps s' = v_steps s @ new"
        "innerSpins cfg isRepeatTag (v_bankroll s) (spinsConsumed s) new" by blast
      with \<open>testsPassed strategy (v_bankroll s)\<close> innerSpins_hd [OF new(2)] show ?thesis
        by (intro exI [of _ new]) simp
    next
      case False
      with go nm have body: "mainBody rnd initial h strategy cfg s =
          singleSpin rnd initial h (rootNode strategy) cfg s"
        by (auto simp: mainBody_def)
      from assms show ?thesis
      proof
        assume "mainBody rnd initial h strategy cfg s = Break s'"
        with body have "s' = s" by (simp add: singleSpin_segment(2))
        then show ?thesis by (intro exI [of _ "[]"]) simp
      next
        assume "mainBody rnd initial h strategy cfg s = Continue s'"
        with body have "singleSpin rnd initial h (rootNode strategy) cfg s = Continue s'"
          by simp
        from singleSpin_segment(1) [OF this] obtain e ws where
          "v_steps s' = v_steps s @ e # ws" "isSpinTag (actionType e)"
          "spinIndex e = Suc (spinsConsumed s)" "bankroll e - net e = v_bankroll s"
          "list_all (\<lambda>x. isWaitTag (actionType x)) ws" by blast
        with \<open>testsPassed strategy (v_bankroll s)\<close> show ?thesis
          by (intro exI [of _ "e # ws"]) simp
      qed
    qed
  qed
qed

lemma mainBody_guarded:
  assumes budget: "int (spinsConsumed s) < maxSpins cfg"
    and body: "mainBody rnd initial h strategy cfg s = Continue s'
               \<or> mainBody rnd initial h strategy cfg s = Break s'"
    and inv: "guarded strategy cfg None (v_steps s)"
  shows "guarded strategy cfg None (v_steps s')"
proof -
  from mainBody_segment [OF body] obtain new where new: "v_steps s' = v_steps s @ new"
    and seg: "new \<noteq> [] \<longrightarrow>
          testsPassed strategy (v_bankroll s)
          \<and> spinIndex (hd new) = Suc (spinsConsumed s)
          \<and> bankroll (hd new) - net (hd new) = v_bankroll s
          \<and> (isSpinTag (actionType (hd new))
               \<and> list_all (\<lambda>x. isWaitTag (actionType x)) (tl new)
             \<or> innerSpins cfg isMartingaleTag (v_bankroll s) (spinsConsumed s) new
             \<or> innerSpins cfg isRepeatTag (v_bankroll s) (spinsConsumed s) new)"
    by blast
  have "guarded strategy cfg p new" for p
  proof (cases new)
    case Nil
    then show ?thesis by simp
  next
    case (Cons e ws)
    with seg have t: "testsPassed strategy (v_bankroll s)"
      and e: "spinIndex e = Suc (spinsConsumed s)" "bankroll e - net e = v_bankroll s"
      and kinds: "isSpinTag (actionType e) \<and> list_all (\<lambda>x. isWaitTag (actionType x)) ws
             \<or> innerSpins cfg isMartingaleTag (v_bankroll s) (spinsConsumed s) (e # ws)
             \<or> innerSpins cfg isRepeatTag (v_bankroll s) (spinsConsumed s) (e # ws)"
      by (simp_all del: innerSpins.simps)
    from kinds show ?thesis
    proof (elim disjE conjE)
      assume sp: "isSpinTag (actionType e)" and ws: "list_all (\<lambda>x. isWaitTag (actionType x)) ws"
      have "spinOk strategy cfg p e"
        using sp tag_kinds(1) [OF sp] t e budget by (simp add: spinOk_def)
      with waits_guarded [OF ws] Cons show ?thesis by simp
    next
      assume "innerSpins cfg isMartingaleTag (v_bankroll s) (spinsConsumed s) (e # ws)"
      then show ?thesis unfolding Cons by (rule martingaleSpins_guarded) (simp add: t)
    next
      assume "innerSpins cfg isRepeatTag (v_bankroll s) (spinsConsumed s) (e # ws)"
      then show ?thesis unfolding Cons by (rule repeatSpins_guarded) (simp add: t)
    qed
  qed
  with inv new show ?thesis by (simp add: guarded_append)
qed

lemma mainLoop_guarded_aux:
  assumes run: "mainLoop rnd initial h strategy cfg s = Some y"
  shows "\<forall>s'. y = Inr s' \<longrightarrow> guarded strategy cfg None (v_steps s) \<longrightarrow>
           guarded strategy cfg None (v_steps s')"
proof (rule mainLoop.raw_induct
    [where P = "\<lambda>rnd initial h strategy cfg s y.
                  \<forall>s'. y = Inr s' \<longrightarrow> guarded strategy cfg None (v_steps s) \<longrightarrow>
                     guarded strategy cfg None (v_steps s')", OF _ run])
  fix f :: "(nat \<Rightarrow> nat) \<Rightarrow> int \<Rightarrow> store \<Rightarrow> StrategyConfig \<Rightarrow> SimConfig \<Rightarrow> run_state
              \<Rightarrow> (error + run_state) option"
    and rnd initial h strategy cfg s y
  assume IH: "\<And>rnd initial h strategy cfg s y. f rnd initial h strategy cfg s = Some y \<Longrightarrow>
                 \<forall>s'. y = Inr s' \<longrightarrow> guarded strategy cfg None (v_steps s) \<longrightarrow>
                     guarded strategy cfg None (v_steps s')"
  assume eq: "(if int (spinsConsumed s) < maxSpins cfg
      then case mainBody rnd initial h strategy cfg s of
           Continue s1 \<Rightarrow> f rnd initial h strategy cfg s1
           | Break s1 \<Rightarrow> Some (Inr s1) | Raise e \<Rightarrow> Some (Inl e)
      else Some (Inr s)) = Some y"
  show "\<forall>s'. y = Inr s' \<longrightarrow> guarded strategy cfg None (v_steps s) \<longrightarrow>
           guarded strategy cfg None (v_steps s')"
  proof (cases "int (spinsConsumed s) < maxSpins cfg")
    case False
    with eq show ?thesis by auto
  next
    case True
    show ?thesis
    proof (cases "mainBody rnd initial h strategy cfg s")
      case (Continue s1)
      with eq True have "f rnd initial h strategy cfg s1 = Some y" by simp
      then have "\<forall>s'. y = Inr s' \<longrightarrow> guarded strategy cfg None (v_steps s1) \<longrightarrow>
                     guarded strategy cfg None (v_steps s')"
        by (rule IH)
      moreover have "guarded strategy cfg None (v_steps s) \<Longrightarrow>
          guarded strategy cfg None (v_steps s1)"
        using True Continue by (intro mainBody_guarded [of s cfg rnd initial h strategy s1]) simp_all
      ultimately show ?thesis by blast
    next
      case (Break s1)
      with eq True have "y = Inr s1" by simp
      moreover have "guarded strategy cfg None (v_steps s) \<Longrightarrow>
          guarded strategy cfg None (v_steps s1)"
        using True Break by (intro mainBody_guarded [of s cfg rnd initial h strategy s1]) simp_all
      ultimately show ?thesis by simp
    next
      case (Raise e)
      with eq True show ?thesis by auto
    qed
  qed
qed

lemma finalState_guarded:
  assumes "finalState rnd h initial strategy cfg = Some (Inr s)"
  shows "guarded strategy cfg None (v_steps s)"
proof -
  let ?i = "initState initial h (rootNode strategy)"
  let ?p = "preSim rnd initial h (rootNode strategy) ?i"
  from preSim_waited [of ?i rnd initial h "rootNode strategy"] obtain ws where
    "v_steps ?p = v_steps ?i @ ws" "list_all (\<lambda>e. net e = 0 \<and> isWaitTag (actionType e)) ws"
    unfolding waited_def by blast
  then have "v_steps ?p = ws" "list_all (\<lambda>x. isWaitTag (actionType x)) ws"
    by (simp_all add: initState_def list_all_iff)
  then have "guarded strategy cfg None (v_steps ?p)"
    by (simp add: waits_guarded)
  with mainLoop_guarded_aux [OF assms [unfolded finalState_def]] show ?thesis by blast
qed

lemma guarded_nth:
  "guarded strategy cfg prev es \<Longrightarrow> i < length es \<Longrightarrow>
   spinOk strategy cfg (if i = 0 then prev else Some (actionType (es ! (i - 1)))) (es ! i)"
proof (induction es arbitrary: prev i)
  case Nil
  then show ?case by simp
next
  case (Cons e es)
  show ?case
  proof (cases i)
    case 0
    with Cons.prems show ?thesis by simp
  next
    case (Suc j)
    from Cons.prems have g: "guarded strategy cfg (Some (actionType e)) es" and j: "j < length es"
      using Suc by simp_all
    from Cons.IH [OF g j] Suc show ?thesis
      by (cases j) simp_all
  qed
qed

text \<open>
  Claim C4, as stated, fails. With a stop-loss of 95 and a bankroll of 100, a martingale
  root that loses 10 on its first spin draws its second spin at a bankroll of 90, below the
  stop-loss: the inner loop tests the spin budget and \<open>bankroll > 0\<close> only. And with a
  budget of 1 spin, a root without bets whose loss child waits 1 spin draws that wait spin
  as spin 2, with the budget exhausted.
\<close>

theorem inner_loop_ignores_stop_loss:
  "map_option (map_sum id (map (\<lambda>e. (actionType e, bankroll e - net e)) \<circ> steps))
     (runSimulation zeros martingaleStore 100 (limits 95 0) (table 2 1000))
   = Some (Inr [(MARTINGALE_x 1, 100), (MARTINGALE_x 2, 90)])
   \<and> stopLoss (limits 95 0) = 95
   \<and> map_option (map_sum id (map (\<lambda>e. (actionType e, spinIndex e)) \<circ> steps))
       (runSimulation zeros noBetWaitStore 100 (limits 0 0) (table 1 1000))
     = Some (Inr [(NO_BET, 1), (WAITING, 2)])
   \<and> maxSpins (table 1 1000) = 1"
  by code_simp

text \<open>
  Claim C4, amended. The main loop tests the spin budget before every pass, and the pass
  begins with the three tests on the bankroll (\<open>testsPassed\<close>). A pass that draws a spin
  has passed them: the first spin of the pass (the spin of a single-spin node, or the first
  spin of a visit to a martingale or repeat-until node) is drawn in the state of the tests,
  with the bankroll above the stop-loss, below a positive take-profit, and above 0, and as
  the next spin after those consumed at the test of the budget. The later entries of the pass
  are the wait spins after a single spin, or further spins of the same inner loop; each of
  these further spins is drawn with the spin budget not exhausted and the bankroll above 0,
  and with no test of stop-loss and take-profit. In the ledger of a run, accordingly: an
  entry tagged START, BET or NO_BET was drawn with all four tests passed; an entry tagged
  MARTINGALE_x or REPEAT was drawn with the spin budget not exhausted and the bankroll above
  0, and with all four tests passed unless the entry before it has a tag of the same loop.
  Wait spins are drawn without any test: before the main loop with the budget exhausted,
  the bankroll at the stop-loss and the take-profit reached (a root that waits 2 spins,
  bankroll 100, stop-loss 100, take-profit 50, budget 0), and with a bankroll of 0; inside
  the main loop with the budget exhausted (spin 2 of a budget of 1).
\<close>

theorem spin_guards:
  "(\<forall>r i. runSimulation rnd h initial strategy cfg = Some (Inr r) \<longrightarrow> i < length (steps r) \<longrightarrow>
      (isSpinTag (actionType (steps r ! i)) \<longrightarrow>
         int (spinIndex (steps r ! i)) \<le> maxSpins cfg
         \<and> testsPassed strategy (bankroll (steps r ! i) - net (steps r ! i)))
    \<and> (isMartingaleTag (actionType (steps r ! i)) \<longrightarrow>
         int (spinIndex (steps r ! i)) \<le> maxSpins cfg
         \<and> bankroll (steps r ! i) - net (steps r ! i) > 0
         \<and> (testsPassed strategy (bankroll (steps r ! i) - net (steps r ! i))
            \<or> 0 < i \<and> isMartingaleTag (actionType (steps r ! (i - 1)))))
    \<and> (isRepeatTag (actionType (steps r ! i)) \<longrightarrow>
         int (spinIndex (steps r ! i)) \<le> maxSpins cfg
         \<and> bankroll (steps r ! i) - net (steps r ! i) > 0
         \<and> (testsPassed strategy (bankroll (steps r ! i) - net (steps r ! i))
            \<or> 0 < i \<and> isRepeatTag (actionType (steps r ! (i - 1))))))
   \<and> (\<forall>s s'. mainBody rnd initial h strategy cfg s = Continue s'
              \<or> mainBody rnd initial h strategy cfg s = Break s' \<longrightarrow>
        (\<exists>new. v_steps s' = v_steps s @ new
           \<and> (new \<noteq> [] \<longrightarrow>
                testsPassed strategy (v_bankroll s)
                \<and> spinIndex (hd new) = Suc (spinsConsumed s)
                \<and> bankroll (hd new) - net (hd new) = v_bankroll s
                \<and> (isSpinTag (actionType (hd new))
                     \<and> list_all (\<lambda>x. isWaitTag (actionType x)) (tl new)
                   \<or> innerSpins cfg isMartingaleTag (v_bankroll s) (spinsConsumed s) new
                   \<or> innerSpins cfg isRepeatTag (v_bankroll s) (spinsConsumed s) new))))
   \<and> map_option (map_sum id (map (\<lambda>e. (actionType e, spinIndex e, bankroll e - net e)) \<circ> steps))
       (runSimulation zeros waitRootStore 100 (limits 100 50) (table 0 1000))
     = Some (Inr [(WAITING, 1, 100), (WAITING, 2, 100)])
   \<and> map_option (map_sum id (map (\<lambda>e. (actionType e, spinIndex e, bankroll e - net e)) \<circ> steps))
       (runSimulation zeros waitRootStore 0 (limits 0 0) (table 5 1000))
     = Some (Inr [(WAITING, 1, 0), (WAITING, 2, 0)])
   \<and> map_option (map_sum id (map (\<lambda>e. (actionType e, spinIndex e, bankroll e - net e)) \<circ> steps))
       (runSimulation zeros noBetWaitStore 100 (limits 0 0) (table 1 1000))
     = Some (Inr [(NO_BET, 1, 100), (WAITING, 2, 100)])"
proof (intro conjI allI impI)
  fix r i
  assume run: "runSimulation rnd h initial strategy cfg = Some (Inr r)"
    and i: "i < length (steps r)"
  from runSimulation_Inr [OF run] obtain s where
    s: "finalState rnd h initial strategy cfg = Some (Inr s)" and r: "r = mkResult initial cfg s"
    by blast
  have "guarded strategy cfg None (steps r)"
    using finalState_guarded [OF s] by (simp add: r mkResult_def)
  from guarded_nth [OF this i]
  have ok: "spinOk strategy cfg (if i = 0 then None else Some (actionType (steps r ! (i - 1))))
              (steps r ! i)" .
  {
    assume "isSpinTag (actionType (steps r ! i))"
    with ok show "int (spinIndex (steps r ! i)) \<le> maxSpins cfg"
      and "testsPassed strategy (bankroll (steps r ! i) - net (steps r ! i))"
      by (simp_all add: spinOk_def)
  }
  {
    assume "isMartingaleTag (actionType (steps r ! i))"
    with ok show "int (spinIndex (steps r ! i)) \<le> maxSpins cfg"
      and "bankroll (steps r ! i) - net (steps r ! i) > 0"
      and "testsPassed strategy (bankroll (steps r ! i) - net (steps r ! i))
            \<or> 0 < i \<and> isMartingaleTag (actionType (steps r ! (i - 1)))"
      by (auto simp: spinOk_def split: if_splits)
  }
  {
    assume "isRepeatTag (actionType (steps r ! i))"
    with ok show "int (spinIndex (steps r ! i)) \<le> maxSpins cfg"
      and "bankroll (steps r ! i) - net (steps r ! i) > 0"
      and "testsPassed strategy (bankroll (steps r ! i) - net (steps r ! i))
            \<or> 0 < i \<and> isRepeatTag (actionType (steps r ! (i - 1)))"
      by (auto simp: spinOk_def split: if_splits)
  }
next
  fix s s'
  assume "mainBody rnd initial h strategy cfg s = Continue s'
          \<or> mainBody rnd initial h strategy cfg s = Break s'"
  then show "\<exists>new. v_steps s' = v_steps s @ new
           \<and> (new \<noteq> [] \<longrightarrow>
                testsPassed strategy (v_bankroll s)
                \<and> spinIndex (hd new) = Suc (spinsConsumed s)
                \<and> bankroll (hd new) - net (hd new) = v_bankroll s
                \<and> (isSpinTag (actionType (hd new))
                     \<and> list_all (\<lambda>x. isWaitTag (actionType x)) (tl new)
                   \<or> innerSpins cfg isMartingaleTag (v_bankroll s) (spinsConsumed s) new
                   \<or> innerSpins cfg isRepeatTag (v_bankroll s) (spinsConsumed s) new))"
    by (rule mainBody_segment)
next
  show "map_option (map_sum id (map (\<lambda>e. (actionType e, spinIndex e, bankroll e - net e)) \<circ> steps))
       (runSimulation zeros waitRootStore 100 (limits 100 50) (table 0 1000))
     = Some (Inr [(WAITING, 1, 100), (WAITING, 2, 100)])"
    by code_simp
next
  show "map_option (map_sum id (map (\<lambda>e. (actionType e, spinIndex e, bankroll e - net e)) \<circ> steps))
       (runSimulation zeros waitRootStore 0 (limits 0 0) (table 5 1000))
     = Some (Inr [(WAITING, 1, 0), (WAITING, 2, 0)])"
    by code_simp
next
  show "map_option (map_sum id (map (\<lambda>e. (actionType e, spinIndex e, bankroll e - net e)) \<circ> steps))
       (runSimulation zeros noBetWaitStore 100 (limits 0 0) (table 1 1000))
     = Some (Inr [(NO_BET, 1, 100), (WAITING, 2, 100)])"
    by code_simp
qed

text \<open>
  The martingale root with a stop-loss of 95: its second spin is drawn at a bankroll of 90
  and follows an entry of the same loop; its first spin, and the first spin of a betting
  root, are drawn with all tests passed.
\<close>

theorem spin_guards_witness:
  "(\<exists>r. runSimulation zeros martingaleStore 100 (limits 95 0) (table 2 1000) = Some (Inr r)
       \<and> 1 < length (steps r) \<and> isMartingaleTag (actionType (steps r ! 1))
       \<and> int (spinIndex (steps r ! 1)) \<le> 2
       \<and> bankroll (steps r ! 1) - net (steps r ! 1) = 90
       \<and> \<not> testsPassed (limits 95 0) (bankroll (steps r ! 1) - net (steps r ! 1))
       \<and> isMartingaleTag (actionType (steps r ! 0))
       \<and> testsPassed (limits 95 0) (bankroll (steps r ! 0) - net (steps r ! 0)))
   \<and> (\<exists>r. runSimulation zeros loopStore 25 (limits 0 0) (table 5 1000) = Some (Inr r)
       \<and> 0 < length (steps r) \<and> isSpinTag (actionType (steps r ! 0))
       \<and> int (spinIndex (steps r ! 0)) \<le> 5
       \<and> testsPassed (limits 0 0) (bankroll (steps r ! 0) - net (steps r ! 0)))
   \<and> (\<exists>s' new. mainBody zeros 100 martingaleStore (limits 95 0) (table 2 1000)
                   (initState 100 martingaleStore 0) = Continue s'
       \<and> v_steps s' = new \<and> length new = 2
       \<and> testsPassed (limits 95 0) 100
       \<and> spinIndex (hd new) = 1 \<and> bankroll (hd new) - net (hd new) = 100)"
proof (intro conjI)
  note inst = spin_guards [of zeros martingaleStore 100 "limits 95 0" "table 2 1000",
      THEN conjunct1, rule_format]
  have "map_option (map_sum id (map (\<lambda>e. (actionType e, bankroll e - net e)) \<circ> steps))
          (runSimulation zeros martingaleStore 100 (limits 95 0) (table 2 1000))
        = Some (Inr [(MARTINGALE_x 1, 100), (MARTINGALE_x 2, 90)])"
    by code_simp
  then obtain r where r: "runSimulation zeros martingaleStore 100 (limits 95 0) (table 2 1000) = Some (Inr r)"
    and m: "map (\<lambda>e. (actionType e, bankroll e - net e)) (steps r)
              = [(MARTINGALE_x 1, 100), (MARTINGALE_x 2, 90)]"
    by (cases "runSimulation zeros martingaleStore 100 (limits 95 0) (table 2 1000)")
       (auto simp: map_sum_def split: sum.splits)
  from m obtain a b where ab: "steps r = [a, b]"
    by (cases "steps r"; cases "tl (steps r)"; simp)
  with m have e1: "actionType (steps r ! 1) = MARTINGALE_x 2"
      "bankroll (steps r ! 1) - net (steps r ! 1) = 90"
    and e0: "actionType (steps r ! 0) = MARTINGALE_x 1"
      "bankroll (steps r ! 0) - net (steps r ! 0) = 100"
    by simp_all
  from ab have i1: "1 < length (steps r)" by simp
  from inst [OF r i1] e1 have "int (spinIndex (steps r ! 1)) \<le> maxSpins (table 2 1000)"
    and "testsPassed (limits 95 0) 90 \<or> 0 < (1::nat) \<and> isMartingaleTag (actionType (steps r ! (1 - 1)))"
    by simp_all
  with r i1 e1 e0 show "\<exists>r. runSimulation zeros martingaleStore 100 (limits 95 0) (table 2 1000) = Some (Inr r)
       \<and> 1 < length (steps r) \<and> isMartingaleTag (actionType (steps r ! 1))
       \<and> int (spinIndex (steps r ! 1)) \<le> 2
       \<and> bankroll (steps r ! 1) - net (steps r ! 1) = 90
       \<and> \<not> testsPassed (limits 95 0) (bankroll (steps r ! 1) - net (steps r ! 1))
       \<and> isMartingaleTag (actionType (steps r ! 0))
       \<and> testsPassed (limits 95 0) (bankroll (steps r ! 0) - net (steps r ! 0))"
    by (intro exI [of _ r]) (simp add: testsPassed_def limits_def table_def)
next
  note inst = spin_guards [of zeros loopStore 25 "limits 0 0" "table 5 1000",
      THEN conjunct1, rule_format]
  have "map_option (map_sum id (map actionType \<circ> steps))
          (runSimulation zeros loopStore 25 (limits 0 0) (table 5 1000)) = Some (Inr [START, BET])"
    by code_simp
  then obtain r where r: "runSimulation zeros loopStore 25 (limits 0 0) (table 5 1000) = Some (Inr r)"
    and tags: "map actionType (steps r) = [START, BET]"
    by (cases "runSimulation zeros loopStore 25 (limits 0 0) (table 5 1000)")
       (auto simp: map_sum_def split: sum.splits)
  from tags have i0: "0 < length (steps r)" and t0: "actionType (steps r ! 0) = START"
    by (cases "steps r"; simp)+
  from inst [OF r i0] t0 have "int (spinIndex (steps r ! 0)) \<le> maxSpins (table 5 1000)"
    and "testsPassed (limits 0 0) (bankroll (steps r ! 0) - net (steps r ! 0))"
    by simp_all
  with r i0 t0 show "\<exists>r. runSimulation zeros loopStore 25 (limits 0 0) (table 5 1000) = Some (Inr r)
       \<and> 0 < length (steps r) \<and> isSpinTag (actionType (steps r ! 0))
       \<and> int (spinIndex (steps r ! 0)) \<le> 5
       \<and> testsPassed (limits 0 0) (bankroll (steps r ! 0) - net (steps r ! 0))"
    by (intro exI [of _ r]) (simp add: table_def)
next
  note inst = spin_guards [of zeros martingaleStore 100 "limits 95 0" "table 2 1000",
      THEN conjunct2, THEN conjunct1, rule_format]
  let ?s0 = "initState 100 martingaleStore 0"
  have "case mainBody zeros 100 martingaleStore (limits 95 0) (table 2 1000) ?s0 of
          Continue s \<Rightarrow> length (v_steps s) = 2 | _ \<Rightarrow> False"
    by code_simp
  then obtain s' where s': "mainBody zeros 100 martingaleStore (limits 95 0) (table 2 1000) ?s0
        = Continue s'" and len: "length (v_steps s') = 2"
    by (cases "mainBody zeros 100 martingaleStore (limits 95 0) (table 2 1000) ?s0") auto
  from inst [OF disjI1 [OF s']] obtain new where new: "v_steps s' = v_steps ?s0 @ new"
    "new \<noteq> [] \<longrightarrow>
       testsPassed (limits 95 0) (v_bankroll ?s0)
       \<and> spinIndex (hd new) = Suc (spinsConsumed ?s0)
       \<and> bankroll (hd new) - net (hd new) = v_bankroll ?s0
       \<and> (isSpinTag (actionType (hd new))
            \<and> list_all (\<lambda>x. isWaitTag (actionType x)) (tl new)
          \<or> innerSpins (table 2 1000) isMartingaleTag (v_bankroll ?s0) (spinsConsumed ?s0) new
          \<or> innerSpins (table 2 1000) isRepeatTag (v_bankroll ?s0) (spinsConsumed ?s0) new)"
    by blast
  from new(1) have eq: "v_steps s' = new" by (simp add: initState_def)
  with len have ne: "new \<noteq> []" by auto
  with new(2) have "testsPassed (limits 95 0) 100" "spinIndex (hd new) = 1"
    "bankroll (hd new) - net (hd new) = 100"
    by (simp_all add: initState_def)
  with s' eq len show "\<exists>s' new. mainBody zeros 100 martingaleStore (limits 95 0) (table 2 1000)
                   (initState 100 martingaleStore 0) = Continue s'
       \<and> v_steps s' = new \<and> length new = 2
       \<and> testsPassed (limits 95 0) 100
       \<and> spinIndex (hd new) = 1 \<and> bankroll (hd new) - net (hd new) = 100"
    by (intro exI [of _ s'] exI [of _ new]) simp
qed

end
